theory Spec2Isabelle
  imports Main "HOL-Library.Multiset"
begin

section \<open>Data model of TaskScheduler.tsx\<close>

text \<open>
  The component keeps its tasks as \<^verbatim>\<open>LocalTask\<close> objects and the generated timetable as
  \<^verbatim>\<open>ScheduleItem\<close> objects. Both types share the field names \<^verbatim>\<open>duration\<close>,
  \<^verbatim>\<open>category\<close> and \<^verbatim>\<open>notes\<close>; the task's fields carry the prefix \<open>task_\<close> here, the
  item's fields keep the source's names (\<^verbatim>\<open>end\<close> is written \<open>endAt\<close>, \<^verbatim>\<open>notes\<close> is
  written \<open>item_notes\<close>).

  A \<^verbatim>\<open>Date\<close> of the timetable is an \<open>int\<close>: minutes since local midnight of the current
  day. Every \<^verbatim>\<open>Date\<close> the scheduler builds comes from \<^verbatim>\<open>setHours(h, m, 0, 0)\<close> on the
  current day and from \<^verbatim>\<open>setMinutes(getMinutes() + n)\<close>, so it is a whole number of
  minutes; a change of the local clock offset during the day (daylight saving) is not
  modelled. \<^verbatim>\<open>Date.now()\<close> of the countdown is an \<open>int\<close> of milliseconds. A JavaScript
  \<^verbatim>\<open>number\<close> holding a duration is an \<open>int\<close>.
\<close>

record LocalTask =
  task_id :: int
  task_name :: string
  task_duration :: int
  task_category :: string
  task_dueDate :: string
  task_fixedTime :: "string option"
  task_notes :: "string option"

record ScheduleItem =
  task :: string
  category :: string
  start :: int
  endAt :: int
  duration :: int
  completed :: bool
  isFixed :: bool
  originalFixedTime :: "string option"
  item_notes :: "string option"

datatype error = TypeError

text \<open>
  The state of the component that the scheduler and the session handlers read and write:
  the React state variables and the two refs of the countdown. \<open>timerRef\<close> records
  whether an interval handle is stored in \<^verbatim>\<open>timerRef.current\<close>.
\<close>

record session =
  schedule :: "ScheduleItem list option"
  currentTaskIndex :: "nat option"
  timeRemaining :: "int option"
  isRunning :: bool
  startTime :: string
  draggedScheduleItem :: "nat option"
  endTimeRef :: "int option"
  timerRef :: bool

section \<open>Time-of-day strings\<close>

text \<open>
  \<^verbatim>\<open>task.fixedTime\<close> in a condition, and \<^verbatim>\<open>x || d\<close>: \<^verbatim>\<open>null\<close> and the empty string are
  falsy.
\<close>

definition truthy :: "string option \<Rightarrow> bool" where
  "truthy v = (case v of None \<Rightarrow> False | Some s \<Rightarrow> s \<noteq> [])"

definition orElse :: "string option \<Rightarrow> string \<Rightarrow> string" where
  "orElse v d = (case v of None \<Rightarrow> d | Some s \<Rightarrow> if s = [] then d else s)"

definition isDigit :: "char \<Rightarrow> bool" where
  "isDigit c = (48 \<le> (of_char c :: nat) \<and> (of_char c :: nat) \<le> 57)"

text \<open>
  \<^verbatim>\<open>const [h, m] = s.split(':')\<close>: the first two fields of the string. With no colon in
  the string the second is \<^verbatim>\<open>undefined\<close>; \<open>wellFormedTime\<close> excludes that.
\<close>

definition hourField :: "string \<Rightarrow> string" where
  "hourField s = takeWhile (\<lambda>c. c \<noteq> CHR '':'') s"

definition minuteField :: "string \<Rightarrow> string" where
  "minuteField s = takeWhile (\<lambda>c. c \<noteq> CHR '':'') (drop 1 (dropWhile (\<lambda>c. c \<noteq> CHR '':'') s))"

text \<open>
  \<^verbatim>\<open>parseInt\<close> on a field of decimal digits: the number its leading digits spell. On
  other fields (white space, a sign, a hexadecimal prefix, no digit at all, which gives
  \<^verbatim>\<open>NaN\<close> and an invalid \<^verbatim>\<open>Date\<close>) the source leaves this model; \<open>wellFormedTime\<close>
  excludes them.
\<close>

definition parseInt :: "string \<Rightarrow> int" where
  "parseInt s = int (foldl (\<lambda>a c. 10 * a + (of_char c - 48)) 0 (takeWhile isDigit s))"

definition wellFormedTime :: "string \<Rightarrow> bool" where
  "wellFormedTime s =
     (CHR '':'' \<in> set s \<and> hourField s \<noteq> [] \<and> minuteField s \<noteq> [] \<and>
      list_all isDigit (hourField s) \<and> list_all isDigit (minuteField s))"

text \<open>
  \<^verbatim>\<open>d = new Date(); d.setHours(parseInt(h), parseInt(m), 0, 0)\<close>: the minute of the
  current day.
\<close>

definition timeOfDay :: "string \<Rightarrow> int" where
  "timeOfDay s = parseInt (hourField s) * 60 + parseInt (minuteField s)"

section \<open>generateSchedule\<close>

text \<open>The two object literals pushed onto \<^verbatim>\<open>scheduleItems\<close>.\<close>

definition flexItem :: "LocalTask \<Rightarrow> int \<Rightarrow> int \<Rightarrow> ScheduleItem" where
  "flexItem t s e =
     \<lparr>task = task_name t, category = task_category t, start = s, endAt = e,
      duration = task_duration t, completed = False, isFixed = False,
      originalFixedTime = None, item_notes = task_notes t\<rparr>"

definition fixedItem :: "LocalTask \<Rightarrow> int \<Rightarrow> int \<Rightarrow> ScheduleItem" where
  "fixedItem t s e =
     \<lparr>task = task_name t, category = task_category t, start = s, endAt = e,
      duration = task_duration t, completed = False, isFixed = True,
      originalFixedTime = (if truthy (task_fixedTime t) then task_fixedTime t else None),
      item_notes = task_notes t\<rparr>"

definition anchorTime :: "LocalTask \<Rightarrow> int" where
  "anchorTime t = timeOfDay (orElse (task_fixedTime t) ''00:00'')"

text \<open>
  The inner loop of lines 561 to 592, run with \<^verbatim>\<open>currentTime = cur\<close> against the pending
  anchor's \<^verbatim>\<open>fixedDateTime = fx\<close>; the list is \<^verbatim>\<open>flexibleTasks\<close> from \<^verbatim>\<open>flexIndex\<close> on.
  It returns the items pushed and the flexible tasks left. \<^verbatim>\<open>currentTime\<close> is not
  returned: line 611 assigns it anew before it is read again.
\<close>

fun fillBeforeAnchor :: "int \<Rightarrow> int \<Rightarrow> LocalTask list \<Rightarrow> ScheduleItem list \<times> LocalTask list" where
  "fillBeforeAnchor cur fx [] = ([], [])"
| "fillBeforeAnchor cur fx (f # fs) =
     (if cur + (task_duration f + 5) > fx then ([], f # fs)
      else
        let e = cur + task_duration f;
            nextTaskTime = e + 5;
            cur' = (if nextTaskTime < fx \<and> fs \<noteq> [] then nextTaskTime else e);
            r = fillBeforeAnchor cur' fx fs
        in (flexItem f cur e # fst r, snd r))"

text \<open>The loop of lines 615 to 636: no anchor is left.\<close>

fun placeRemaining :: "int \<Rightarrow> LocalTask list \<Rightarrow> ScheduleItem list" where
  "placeRemaining cur [] = []"
| "placeRemaining cur (f # fs) =
     (let e = cur + task_duration f
      in flexItem f cur e # placeRemaining (if fs \<noteq> [] then e + 5 else e) fs)"

text \<open>
  The outer loop of lines 551 to 638 from \<^verbatim>\<open>currentTime = cur\<close>; the lists are
  \<^verbatim>\<open>fixedTasks\<close> from \<^verbatim>\<open>fixedIndex\<close> on and \<^verbatim>\<open>flexibleTasks\<close> from \<^verbatim>\<open>flexIndex\<close> on.
  Each round consumes one anchor, or, when none is left, every flexible task.
\<close>

fun mergeWalk :: "int \<Rightarrow> LocalTask list \<Rightarrow> LocalTask list \<Rightarrow> ScheduleItem list" where
  "mergeWalk cur [] flex = placeRemaining cur flex"
| "mergeWalk cur (a # as) flex =
     (let fx = anchorTime a;
          availableMinutes = fx - cur;
          r = (if availableMinutes \<ge> 10 \<and> flex \<noteq> [] then fillBeforeAnchor cur fx flex
               else ([], flex));
          e = fx + task_duration a
      in fst r @ fixedItem a fx e # mergeWalk (e + 5) as (snd r))"

text \<open>
  \<^verbatim>\<open>localeCompare\<close> is the host's collation. It enters as a parameter \<open>ckey\<close>, the
  collation key of a string: \<^verbatim>\<open>a.localeCompare(b)\<close> is negative, zero or positive as
  \<open>ckey a\<close> is less than, equal to or greater than \<open>ckey b\<close>. \<^verbatim>\<open>Array.prototype.sort\<close>
  is stable, as \<open>sort_key\<close> is.
\<close>

definition fixedTasksOf :: "(string \<Rightarrow> 'k::linorder) \<Rightarrow> LocalTask list \<Rightarrow> LocalTask list" where
  "fixedTasksOf ckey todaysTasks =
     sort_key (\<lambda>t. ckey (orElse (task_fixedTime t) ''''))
       (filter (\<lambda>t. truthy (task_fixedTime t)) todaysTasks)"

definition flexibleTasksOf :: "(string \<Rightarrow> 'k::linorder) \<Rightarrow> LocalTask list \<Rightarrow> LocalTask list" where
  "flexibleTasksOf ckey todaysTasks =
     sort_key (\<lambda>t. ckey (task_category t))
       (filter (\<lambda>t. \<not> truthy (task_fixedTime t)) todaysTasks)"

text \<open>
  The array \<^verbatim>\<open>scheduleItems\<close> that \<^verbatim>\<open>generateSchedule\<close> hands to \<^verbatim>\<open>setSchedule\<close>, from
  the state variables \<^verbatim>\<open>startTime\<close> and \<^verbatim>\<open>todaysTasks\<close>.
\<close>

definition generateSchedule :: "(string \<Rightarrow> 'k::linorder) \<Rightarrow> string \<Rightarrow> LocalTask list \<Rightarrow> ScheduleItem list" where
  "generateSchedule ckey startTime0 todaysTasks =
     sort_key start
       (mergeWalk (timeOfDay startTime0) (fixedTasksOf ckey todaysTasks)
          (flexibleTasksOf ckey todaysTasks))"

section \<open>handleScheduleDrop\<close>

definition blockTime :: "ScheduleItem \<Rightarrow> int" where
  "blockTime b = timeOfDay (orElse (originalFixedTime b) ''00:00'')"

text \<open>The inner loop of lines 473 to 494.\<close>

fun repackBeforeAnchor :: "int \<Rightarrow> int \<Rightarrow> ScheduleItem list \<Rightarrow> ScheduleItem list \<times> ScheduleItem list" where
  "repackBeforeAnchor cur fx [] = ([], [])"
| "repackBeforeAnchor cur fx (f # fs) =
     (if cur + (duration f + 5) > fx then ([], f # fs)
      else
        let e = cur + duration f;
            r = repackBeforeAnchor (e + 5) fx fs
        in (f\<lparr>start := cur, endAt := e\<rparr> # fst r, snd r))"

text \<open>The loop of lines 510 to 526.\<close>

fun repackRemaining :: "int \<Rightarrow> ScheduleItem list \<Rightarrow> ScheduleItem list" where
  "repackRemaining cur [] = []"
| "repackRemaining cur (f # fs) =
     (let e = cur + duration f
      in f\<lparr>start := cur, endAt := e\<rparr> # repackRemaining (if fs \<noteq> [] then e + 5 else e) fs)"

text \<open>The outer loop of lines 466 to 528.\<close>

fun repackWalk :: "int \<Rightarrow> ScheduleItem list \<Rightarrow> ScheduleItem list \<Rightarrow> ScheduleItem list" where
  "repackWalk cur [] flex = repackRemaining cur flex"
| "repackWalk cur (a # as) flex =
     (let fx = blockTime a;
          r = repackBeforeAnchor cur fx flex;
          e = fx + duration a
      in fst r @ a\<lparr>start := fx, endAt := e\<rparr> # repackWalk (e + 5) as (snd r))"

definition handleScheduleDragStart :: "nat \<Rightarrow> session \<Rightarrow> session" where
  "handleScheduleDragStart index st = st\<lparr>draggedScheduleItem := Some index\<rparr>"

text \<open>
  \<^verbatim>\<open>handleScheduleDrop(e, targetIndex)\<close>. Reading \<^verbatim>\<open>draggedItem.isFixed\<close> of an index
  outside the array throws a \<^verbatim>\<open>TypeError\<close>. The two \<^verbatim>\<open>splice\<close> calls remove the dragged
  item and insert it at the target position, which \<^verbatim>\<open>splice\<close> clamps to the length as
  \<open>take\<close> and \<open>drop\<close> do.
\<close>

definition handleScheduleDrop :: "nat \<Rightarrow> session \<Rightarrow> error + session" where
  "handleScheduleDrop targetIndex st =
     (case draggedScheduleItem st of
        None \<Rightarrow> Inr (st\<lparr>draggedScheduleItem := None\<rparr>)
      | Some d \<Rightarrow>
          (case schedule st of
             None \<Rightarrow> Inr (st\<lparr>draggedScheduleItem := None\<rparr>)
           | Some s \<Rightarrow>
               if d = targetIndex then Inr (st\<lparr>draggedScheduleItem := None\<rparr>)
               else if \<not> d < length s then Inl TypeError
               else
                 let draggedItem = s ! d in
                 if isFixed draggedItem then Inr (st\<lparr>draggedScheduleItem := None\<rparr>)
                 else
                   let removed = take d s @ drop (Suc d) s;
                       pos = (if targetIndex > d then targetIndex - 1 else targetIndex);
                       newSchedule = take pos removed @ draggedItem # drop pos removed;
                       fixedTasks = sort_key blockTime (filter isFixed newSchedule);
                       flexibleTasks = filter (\<lambda>item. \<not> isFixed item) newSchedule;
                       finalSchedule =
                         sort_key start
                           (repackWalk (timeOfDay (startTime st)) fixedTasks flexibleTasks)
                   in Inr (st\<lparr>schedule := Some finalSchedule, draggedScheduleItem := None\<rparr>)))"

section \<open>The countdown and the session handlers\<close>

text \<open>
  \<^verbatim>\<open>Math.ceil(ms / 1000)\<close> for an integer \<^verbatim>\<open>ms\<close>. The quotient of two integers below
  \<open>2^53\<close> is rounded to the nearest double, which never crosses a whole number, so the
  ceiling is the integer one.
\<close>

definition ceilSeconds :: "int \<Rightarrow> int" where
  "ceilSeconds ms = - ((- ms) div 1000)"

text \<open>
  Each handler takes the value \<^verbatim>\<open>Date.now()\<close> returns during the call and returns the
  state after its setters and its writes to the refs have been applied, the state the next
  render and the next handler see. The alert sound of \<^verbatim>\<open>updateTimer\<close> is not part of
  the state.
\<close>

definition updateTimer :: "int \<Rightarrow> session \<Rightarrow> session" where
  "updateTimer now st =
     (case endTimeRef st of
        None \<Rightarrow> st
      | Some e \<Rightarrow>
          let remaining = max 0 (ceilSeconds (e - now));
              st1 = st\<lparr>timeRemaining := Some remaining\<rparr>
          in if remaining \<le> 0
             then st1\<lparr>isRunning := False, endTimeRef := None, timerRef := False\<rparr>
             else st1)"

definition startTask :: "int \<Rightarrow> nat \<Rightarrow> session \<Rightarrow> error + session" where
  "startTask now index st =
     (case schedule st of
        None \<Rightarrow> Inr st
      | Some s \<Rightarrow>
          if index < length s
          then Inr (st\<lparr>currentTaskIndex := Some index,
                       endTimeRef := Some (now + duration (s ! index) * 60 * 1000),
                       timeRemaining := Some (duration (s ! index) * 60),
                       isRunning := True\<rparr>)
          else Inl TypeError)"

definition pauseTask :: "int \<Rightarrow> session \<Rightarrow> session" where
  "pauseTask now st =
     (let st1 = st\<lparr>isRunning := False\<rparr>;
          st2 = (case endTimeRef st of
                   None \<Rightarrow> st1
                 | Some e \<Rightarrow> st1\<lparr>timeRemaining := Some (ceilSeconds (max 0 (e - now)))\<rparr>)
      in st2\<lparr>timerRef := False\<rparr>)"

definition resumeTask :: "int \<Rightarrow> session \<Rightarrow> session" where
  "resumeTask now st =
     (case timeRemaining st of
        None \<Rightarrow> st
      | Some r \<Rightarrow>
          if r > 0 then st\<lparr>endTimeRef := Some (now + r * 1000), isRunning := True\<rparr> else st)"

text \<open>
  \<^verbatim>\<open>completeTask\<close> and \<^verbatim>\<open>skipTask\<close>. Writing \<^verbatim>\<open>completed\<close> of an index outside the array
  throws a \<^verbatim>\<open>TypeError\<close>. \<^verbatim>\<open>startTask\<close> reads the array of the closure, which has the
  length and the block objects of the array just stored.
\<close>

definition completeTask :: "int \<Rightarrow> session \<Rightarrow> error + session" where
  "completeTask now st =
     (case schedule st of
        None \<Rightarrow> Inr st
      | Some s \<Rightarrow>
          (case currentTaskIndex st of
             None \<Rightarrow> Inr st
           | Some i \<Rightarrow>
               if \<not> i < length s then Inl TypeError
               else
                 let updatedSchedule = s[i := (s ! i)\<lparr>completed := True\<rparr>];
                     st1 = st\<lparr>schedule := Some updatedSchedule, timerRef := False,
                              endTimeRef := None\<rparr>
                 in if int i < int (length s) - 1 then startTask now (i + 1) st1
                    else Inr (st1\<lparr>currentTaskIndex := None, timeRemaining := None,
                                  isRunning := False\<rparr>)))"

definition skipTask :: "int \<Rightarrow> session \<Rightarrow> error + session" where
  "skipTask now st =
     (case schedule st of
        None \<Rightarrow> Inr st
      | Some s \<Rightarrow>
          (case currentTaskIndex st of
             None \<Rightarrow> Inr st
           | Some i \<Rightarrow>
               let st1 = st\<lparr>timerRef := False, endTimeRef := None\<rparr>
               in if int i < int (length s) - 1 then startTask now (i + 1) st1
                  else Inr (st1\<lparr>currentTaskIndex := None, timeRemaining := None,
                                isRunning := False\<rparr>)))"

section \<open>Properties of schedules\<close>

text \<open>
  The block an anchor yields: at its fixed time, with its whole duration.
\<close>

definition anchorItem :: "LocalTask \<Rightarrow> ScheduleItem" where
  "anchorItem a = fixedItem a (anchorTime a) (anchorTime a + task_duration a)"

text \<open>
  What one round of \<open>mergeWalk\<close> places before the pending anchor \<open>a\<close>, and the
  flexible tasks it leaves: the right-hand side of \<open>r\<close> in \<open>mergeWalk\<close>.
\<close>

definition beforeAnchor :: "int \<Rightarrow> LocalTask \<Rightarrow> LocalTask list \<Rightarrow> ScheduleItem list \<times> LocalTask list" where
  "beforeAnchor cur a flex =
     (if anchorTime a - cur \<ge> 10 \<and> flex \<noteq> [] then fillBeforeAnchor cur (anchorTime a) flex
      else ([], flex))"

text \<open>
  How two neighbours of the walk's output relate: a flexible block starts 5 minutes after
  the block before it; an anchor starts at least 5 minutes after a flexible block before
  it; two neighbouring anchors relate by \<open>G\<close>, which the anchors' own times decide.
\<close>

definition link :: "(int \<Rightarrow> int \<Rightarrow> int \<Rightarrow> bool) \<Rightarrow> ScheduleItem \<Rightarrow> ScheduleItem \<Rightarrow> bool" where
  "link G a b =
     (if isFixed a then (if isFixed b then G (start a) (duration a) (start b) else start b = endAt a + 5)
      else (if isFixed b then endAt a + 5 \<le> start b else start b = endAt a + 5))"

text \<open>
  Well-formed input (section 3 and section 7 of the specification): every duration is a
  positive whole number of minutes, and the start time and every fixed time that is set
  are times of day that \<open>timeOfDay\<close> reads.
\<close>

definition positiveDurations :: "LocalTask list \<Rightarrow> bool" where
  "positiveDurations ts = list_all (\<lambda>t. 0 < task_duration t) ts"

definition validTimes :: "string \<Rightarrow> LocalTask list \<Rightarrow> bool" where
  "validTimes startTime0 ts =
     (wellFormedTime startTime0 \<and>
      list_all (\<lambda>t. case task_fixedTime t of None \<Rightarrow> True
                    | Some s \<Rightarrow> s = [] \<or> wellFormedTime s) ts)"

definition wellFormedInput :: "string \<Rightarrow> LocalTask list \<Rightarrow> bool" where
  "wellFormedInput startTime0 ts = (validTimes startTime0 ts \<and> positiveDurations ts)"

text \<open>
  The collation puts the anchors in the order of their times of day. For zero-padded
  \<^verbatim>\<open>HH:MM\<close> strings every collation that orders the digits does so.
\<close>

definition timeOrderedAnchors :: "(string \<Rightarrow> 'k::linorder) \<Rightarrow> LocalTask list \<Rightarrow> bool" where
  "timeOrderedAnchors ckey ts = sorted (map anchorTime (fixedTasksOf ckey ts))"

text \<open>
  No anchor runs into the next one: each ends no later than the next anchor, in the order
  \<open>generateSchedule\<close> sorts them, starts.
\<close>

definition disjointAnchors :: "(string \<Rightarrow> 'k::linorder) \<Rightarrow> LocalTask list \<Rightarrow> bool" where
  "disjointAnchors ckey ts =
     successively (\<lambda>a b. anchorTime a + task_duration a \<le> anchorTime b) (fixedTasksOf ckey ts)"

text \<open>Each block ends no later than the next block starts.\<close>

definition noOverlap :: "ScheduleItem list \<Rightarrow> bool" where
  "noOverlap items = successively (\<lambda>a b. endAt a \<le> start b) items"

text \<open>
  \<open>flexBeforeAnchor P items\<close>: every flexible block \<open>b\<close> with an anchor after it satisfies
  \<open>P b a\<close>, where \<open>a\<close> is the first anchor after \<open>b\<close>, the anchor that was pending when
  \<open>b\<close> was placed.
\<close>

fun flexBeforeAnchor :: "(ScheduleItem \<Rightarrow> ScheduleItem \<Rightarrow> bool) \<Rightarrow> ScheduleItem list \<Rightarrow> bool" where
  "flexBeforeAnchor P [] = True"
| "flexBeforeAnchor P (b # rest) =
     ((case find isFixed rest of None \<Rightarrow> True | Some a \<Rightarrow> isFixed b \<or> P b a) \<and>
      flexBeforeAnchor P rest)"

text \<open>
  \<open>firstBeforeAnchor True items\<close>: every flexible block that opens a run of flexible blocks
  before an anchor (it is the first block, or an anchor stands right before it) starts at
  least 10 minutes before that anchor. \<open>prevFixed\<close> tells whether the block before is an
  anchor (or there is none).
\<close>

fun firstBeforeAnchor :: "bool \<Rightarrow> ScheduleItem list \<Rightarrow> bool" where
  "firstBeforeAnchor prevFixed [] = True"
| "firstBeforeAnchor prevFixed (b # rest) =
     ((case find isFixed rest of None \<Rightarrow> True
       | Some a \<Rightarrow> isFixed b \<or> \<not> prevFixed \<or> 10 \<le> start a - start b) \<and>
      firstBeforeAnchor (isFixed b) rest)"

text \<open>
  \<open>placedAtCursor cur items\<close>: every flexible block starts at the cursor, which stands at
  \<open>cur\<close> before the first block and 5 minutes after the end of the block before
  otherwise.
\<close>

fun placedAtCursor :: "int \<Rightarrow> ScheduleItem list \<Rightarrow> bool" where
  "placedAtCursor cur [] = True"
| "placedAtCursor cur (b # rest) =
     ((isFixed b \<or> start b = cur) \<and> placedAtCursor (endAt b + 5) rest)"

text \<open>
  \<open>deferredDidNotFit cur False items\<close>: nothing that could have been placed before an
  anchor was left out. For every anchor \<open>b\<close> with a flexible block after it, the first
  such block \<open>c\<close> is the flexible task that was next in line when \<open>b\<close> was pending.
  Either no flexible block stands right before \<open>b\<close> and the gap from the cursor to \<open>b\<close>
  was below 10 minutes, or \<open>c\<close> does not fit at the cursor: cursor + duration + 5 minutes
  is after the anchor's time. The gap enters only while no run is open (\<open>runOpen\<close> tells
  whether the block before is flexible): after a first block the fit alone decides.
\<close>

fun deferredDidNotFit :: "int \<Rightarrow> bool \<Rightarrow> ScheduleItem list \<Rightarrow> bool" where
  "deferredDidNotFit cur runOpen [] = True"
| "deferredDidNotFit cur runOpen (b # rest) =
     ((case find (\<lambda>c. \<not> isFixed c) rest of
         None \<Rightarrow> True
       | Some c \<Rightarrow>
           \<not> isFixed b \<or> (\<not> runOpen \<and> start b - cur < 10) \<or> start b < cur + duration c + 5) \<and>
      deferredDidNotFit (endAt b + 5) (\<not> isFixed b) rest)"

text \<open>
  What a block copies from its task: name, category, duration, notes, whether it is an
  anchor, and the fixed time of an anchor.
\<close>

type_synonym view = "string \<times> string \<times> int \<times> string option \<times> bool \<times> string option"

definition taskView :: "LocalTask \<Rightarrow> view" where
  "taskView t =
     (task_name t, task_category t, task_duration t, task_notes t, truthy (task_fixedTime t),
      if truthy (task_fixedTime t) then task_fixedTime t else None)"

definition itemView :: "ScheduleItem \<Rightarrow> view" where
  "itemView b = (task b, category b, duration b, item_notes b, isFixed b, originalFixedTime b)"

definition viewDuration :: "view \<Rightarrow> int" where
  "viewDuration v = fst (snd (snd v))"

text \<open>Where a block stands: its task's name, its start and its end.\<close>

definition placement :: "ScheduleItem \<Rightarrow> string \<times> int \<times> int" where
  "placement b = (task b, start b, endAt b)"

section \<open>Example inputs\<close>

text \<open>
  A sample collation key for the examples: the string read as a number in base 256, which
  orders strings of one length by their code units.
\<close>

definition codeUnitKey :: "string \<Rightarrow> int" where
  "codeUnitKey s = foldl (\<lambda>a c. a * 256 + of_char c) 0 s"

definition standup :: LocalTask where
  "standup = \<lparr>task_id = 1, task_name = ''Standup'', task_duration = 15,
      task_category = ''Internal Meeting'', task_dueDate = ''2026-03-02'',
      task_fixedTime = Some ''09:30'', task_notes = None\<rparr>"

definition report :: LocalTask where
  "report = \<lparr>task_id = 2, task_name = ''Write report'', task_duration = 45,
      task_category = ''Admin'', task_dueDate = ''2026-03-02'',
      task_fixedTime = None, task_notes = Some ''Q1 numbers''\<rparr>"

definition review :: LocalTask where
  "review = \<lparr>task_id = 3, task_name = ''Review'', task_duration = 60,
      task_category = ''External Meeting'', task_dueDate = ''2026-03-02'',
      task_fixedTime = Some ''09:00'', task_notes = None\<rparr>"

definition mail :: LocalTask where
  "mail = \<lparr>task_id = 4, task_name = ''Mail'', task_duration = 17,
      task_category = ''Admin'', task_dueDate = ''2026-03-02'',
      task_fixedTime = None, task_notes = None\<rparr>"

definition call :: LocalTask where
  "call = \<lparr>task_id = 5, task_name = ''Call'', task_duration = 3,
      task_category = ''Admin'', task_dueDate = ''2026-03-02'',
      task_fixedTime = None, task_notes = None\<rparr>"

definition sync :: LocalTask where
  "sync = \<lparr>task_id = 6, task_name = ''Sync'', task_duration = 10,
      task_category = ''Internal Meeting'', task_dueDate = ''2026-03-02'',
      task_fixedTime = Some ''09:08'', task_notes = None\<rparr>"

definition lunch :: LocalTask where
  "lunch = \<lparr>task_id = 7, task_name = ''Lunch'', task_duration = 30,
      task_category = ''Personal'', task_dueDate = ''2026-03-02'',
      task_fixedTime = Some ''12:00'', task_notes = None\<rparr>"

definition dayTasks :: "LocalTask list" where
  "dayTasks = [lunch, mail, standup, call, report]"

definition syncItem :: "int \<Rightarrow> int \<Rightarrow> ScheduleItem" where
  "syncItem s e = \<lparr>task = ''Sync'', category = ''Internal Meeting'', start = s, endAt = e,
      duration = 10, completed = False, isFixed = True, originalFixedTime = Some ''09:08'',
      item_notes = None\<rparr>"

definition callItem :: "int \<Rightarrow> int \<Rightarrow> ScheduleItem" where
  "callItem s e = \<lparr>task = ''Call'', category = ''Admin'', start = s, endAt = e,
      duration = 3, completed = False, isFixed = False, originalFixedTime = None,
      item_notes = None\<rparr>"

definition mailItem :: "int \<Rightarrow> int \<Rightarrow> ScheduleItem" where
  "mailItem s e = \<lparr>task = ''Mail'', category = ''Admin'', start = s, endAt = e,
      duration = 17, completed = False, isFixed = False, originalFixedTime = None,
      item_notes = None\<rparr>"

definition oneMinuteItem :: ScheduleItem where
  "oneMinuteItem = \<lparr>task = ''Call'', category = ''Admin'', start = 540, endAt = 541,
      duration = 1, completed = False, isFixed = False, originalFixedTime = None,
      item_notes = None\<rparr>"

definition standupItem :: ScheduleItem where
  "standupItem = \<lparr>task = ''Standup'', category = ''Internal Meeting'', start = 570, endAt = 585,
      duration = 15, completed = False, isFixed = True, originalFixedTime = Some ''09:30'',
      item_notes = None\<rparr>"

definition idleSession :: session where
  "idleSession = \<lparr>schedule = None, currentTaskIndex = None, timeRemaining = None,
      isRunning = False, startTime = ''09:00'', draggedScheduleItem = None,
      endTimeRef = None, timerRef = False\<rparr>"

definition plannedSession :: session where
  "plannedSession = idleSession\<lparr>schedule := Some [oneMinuteItem, standupItem]\<rparr>"

definition runningSession :: session where
  "runningSession = plannedSession\<lparr>currentTaskIndex := Some 0, timeRemaining := Some 60,
      isRunning := True, endTimeRef := Some 60000, timerRef := True\<rparr>"

section \<open>Reading times and seconds\<close>

text \<open>\<open>ceilSeconds\<close> is the ceiling of a thousandth.\<close>

lemma ceilSeconds_bounds:
  "1000 * (ceilSeconds ms - 1) < ms \<and> ms \<le> 1000 * ceilSeconds ms"
proof -
  define q where "q = (- ms) div 1000"
  define r where "r = (- ms) mod 1000"
  have "0 \<le> r" and "r < 1000"
    by (simp_all add: r_def)
  moreover have "- ms = 1000 * q + r"
    by (simp add: q_def r_def)
  moreover have "ceilSeconds ms = - q"
    by (simp add: ceilSeconds_def q_def)
  ultimately show ?thesis
    by simp
qed

lemma timeOfDay_examples:
  "timeOfDay ''09:00'' = 540" "timeOfDay ''09:30'' = 570" "timeOfDay ''13:05:00'' = 785"
  by code_simp+

lemma wellFormedTime_examples:
  "wellFormedTime ''09:30''" "wellFormedTime ''13:05:00''" "\<not> wellFormedTime ''0930''"
  "\<not> wellFormedTime '':30''" "\<not> wellFormedTime ''9h:30''"
  by code_simp+

section \<open>The merge walk: what each loop places\<close>

lemma flexItem_simps [simp]:
  "isFixed (flexItem t s e) = False" "start (flexItem t s e) = s" "endAt (flexItem t s e) = e"
  "duration (flexItem t s e) = task_duration t"
  by (simp_all add: flexItem_def)

lemma fixedItem_simps [simp]:
  "isFixed (fixedItem t s e) = True" "start (fixedItem t s e) = s" "endAt (fixedItem t s e) = e"
  "duration (fixedItem t s e) = task_duration t"
  by (simp_all add: fixedItem_def)

lemma fill_items:
  assumes "\<forall>f\<in>set flex. 0 < task_duration f"
    and "b \<in> set (fst (fillBeforeAnchor cur fx flex))"
  shows "\<not> isFixed b \<and> endAt b = start b + duration b \<and> 0 < duration b \<and>
         endAt b + 5 \<le> fx \<and> cur \<le> start b"
  using assms
proof (induction flex arbitrary: cur)
  case Nil
  then show ?case by simp
next
  case (Cons f fs)
  show ?case
  proof (cases "cur + (task_duration f + 5) > fx")
    case True
    with Cons.prems show ?thesis by simp
  next
    case False
    define cur' where "cur' = (if cur + task_duration f + 5 < fx \<and> fs \<noteq> [] then cur + task_duration f + 5 else cur + task_duration f)"
    have unf: "fst (fillBeforeAnchor cur fx (f # fs)) =
        flexItem f cur (cur + task_duration f) # fst (fillBeforeAnchor cur' fx fs)"
      using False by (simp add: Let_def cur'_def)
    have pos: "0 < task_duration f" and posr: "\<forall>f\<in>set fs. 0 < task_duration f"
      using Cons.prems(1) by simp_all
    have le: "cur \<le> cur'" using pos by (simp add: cur'_def)
    from Cons.prems(2) unf
    consider "b = flexItem f cur (cur + task_duration f)" | "b \<in> set (fst (fillBeforeAnchor cur' fx fs))"
      by auto
    then show ?thesis
    proof cases
      case 1
      then show ?thesis using False pos by simp
    next
      case 2
      from Cons.IH [OF posr 2] le show ?thesis by simp
    qed
  qed
qed

lemma fill_hd:
  "fst (fillBeforeAnchor cur fx flex) \<noteq> [] \<Longrightarrow> start (hd (fst (fillBeforeAnchor cur fx flex))) = cur"
  by (cases flex) (auto simp: Let_def split: if_splits)

lemma fill_successively:
  assumes "\<forall>f\<in>set flex. 0 < task_duration f"
  shows "successively (\<lambda>a b. start b = endAt a + 5) (fst (fillBeforeAnchor cur fx flex))"
  using assms
proof (induction flex arbitrary: cur)
  case Nil
  then show ?case by simp
next
  case (Cons f fs)
  show ?case
  proof (cases "cur + (task_duration f + 5) > fx")
    case True
    then show ?thesis by simp
  next
    case False
    define e where "e = cur + task_duration f"
    define cur' where "cur' = (if e + 5 < fx \<and> fs \<noteq> [] then e + 5 else e)"
    have unf: "fst (fillBeforeAnchor cur fx (f # fs)) =
        flexItem f cur e # fst (fillBeforeAnchor cur' fx fs)"
      using False by (simp add: Let_def cur'_def e_def)
    have posr: "\<forall>f\<in>set fs. 0 < task_duration f"
      using Cons.prems by simp
    have tl: "successively (\<lambda>a b. start b = endAt a + 5) (fst (fillBeforeAnchor cur' fx fs))"
      by (rule Cons.IH [OF posr])
    have junction: "start (hd (fst (fillBeforeAnchor cur' fx fs))) = e + 5"
      if ne: "fst (fillBeforeAnchor cur' fx fs) \<noteq> []"
    proof -
      have "cur' = e + 5"
      proof (rule ccontr)
        assume "cur' \<noteq> e + 5"
        then have c: "cur' = e" and d: "\<not> (e + 5 < fx \<and> fs \<noteq> [])"
          by (auto simp: cur'_def split: if_splits)
        from ne have "fs \<noteq> []" by auto
        then obtain g gs where fs: "fs = g # gs" by (cases fs) auto
        with posr have "0 < task_duration g" by simp
        with d \<open>fs \<noteq> []\<close> have "e + (task_duration g + 5) > fx" by simp
        then have "fst (fillBeforeAnchor cur' fx fs) = []"
          by (simp add: fs c)
        with ne show False by simp
      qed
      with fill_hd [OF ne] show ?thesis by simp
    qed
    show ?thesis
      unfolding unf successively_Cons using tl junction by auto
  qed
qed

lemma fill_rest_subset: "set (snd (fillBeforeAnchor cur fx flex)) \<subseteq> set flex"
proof (induction flex arbitrary: cur)
  case Nil
  then show ?case by simp
next
  case (Cons f fs)
  show ?case
    using Cons.IH by (auto simp: Let_def)
qed

lemma place_items:
  assumes "\<forall>f\<in>set flex. 0 < task_duration f"
    and "b \<in> set (placeRemaining cur flex)"
  shows "\<not> isFixed b \<and> endAt b = start b + duration b \<and> 0 < duration b \<and> cur \<le> start b"
  using assms
proof (induction flex arbitrary: cur)
  case Nil
  then show ?case by simp
next
  case (Cons f fs)
  define cur' where "cur' = (if fs \<noteq> [] then cur + task_duration f + 5 else cur + task_duration f)"
  have unf: "placeRemaining cur (f # fs) = flexItem f cur (cur + task_duration f) # placeRemaining cur' fs"
    by (simp add: Let_def cur'_def)
  have pos: "0 < task_duration f" and posr: "\<forall>f\<in>set fs. 0 < task_duration f"
    using Cons.prems(1) by simp_all
  have le: "cur \<le> cur'" using pos by (simp add: cur'_def)
  from Cons.prems(2) unf
  consider "b = flexItem f cur (cur + task_duration f)" | "b \<in> set (placeRemaining cur' fs)"
    by auto
  then show ?case
  proof cases
    case 1
    then show ?thesis using pos by simp
  next
    case 2
    from Cons.IH [OF posr 2] le show ?thesis by simp
  qed
qed

lemma place_hd:
  "placeRemaining cur flex \<noteq> [] \<Longrightarrow> start (hd (placeRemaining cur flex)) = cur"
  by (cases flex) (simp_all add: Let_def)

lemma place_successively:
  "successively (\<lambda>a b. start b = endAt a + 5) (placeRemaining cur flex)"
proof (induction flex arbitrary: cur)
  case Nil
  then show ?case by simp
next
  case (Cons f fs)
  show ?case
  proof (cases fs)
    case Nil
    then show ?thesis by (simp add: Let_def)
  next
    case (Cons g gs)
    have "placeRemaining (cur + task_duration f + 5) fs \<noteq> []"
      by (simp add: Cons Let_def)
    from place_hd [OF this] Cons.IH [of "cur + task_duration f + 5"] Cons
    show ?thesis
      by (simp add: Let_def successively_Cons)
  qed
qed

lemma mergeWalk_Cons:
  "mergeWalk cur (a # as) flex =
     fst (beforeAnchor cur a flex) @
     anchorItem a # mergeWalk (anchorTime a + task_duration a + 5) as (snd (beforeAnchor cur a flex))"
  by (simp add: Let_def beforeAnchor_def anchorItem_def)

lemma before_items:
  assumes "\<forall>f\<in>set flex. 0 < task_duration f"
    and "b \<in> set (fst (beforeAnchor cur a flex))"
  shows "\<not> isFixed b \<and> endAt b = start b + duration b \<and> 0 < duration b \<and>
         endAt b + 5 \<le> anchorTime a \<and> cur \<le> start b"
  using assms fill_items [of flex b cur "anchorTime a"]
  by (simp add: beforeAnchor_def split: if_splits)

lemma before_hd:
  "fst (beforeAnchor cur a flex) \<noteq> [] \<Longrightarrow>
   start (hd (fst (beforeAnchor cur a flex))) = cur \<and> 10 \<le> anchorTime a - cur"
  using fill_hd [of cur "anchorTime a" flex]
  by (simp add: beforeAnchor_def split: if_splits)

lemma before_successively:
  assumes "\<forall>f\<in>set flex. 0 < task_duration f"
  shows "successively (\<lambda>a b. start b = endAt a + 5) (fst (beforeAnchor cur a flex))"
  using fill_successively [OF assms, of cur "anchorTime a"]
  by (simp add: beforeAnchor_def)

lemma before_rest_subset: "set (snd (beforeAnchor cur a flex)) \<subseteq> set flex"
  using fill_rest_subset [of cur "anchorTime a" flex]
  by (simp add: beforeAnchor_def)

lemma before_rest_pos:
  "\<forall>f\<in>set flex. 0 < task_duration f \<Longrightarrow> \<forall>f\<in>set (snd (beforeAnchor cur a flex)). 0 < task_duration f"
  using before_rest_subset [of cur a flex] by blast

lemma anchorItem_simps [simp]:
  "isFixed (anchorItem a) = True" "start (anchorItem a) = anchorTime a"
  "endAt (anchorItem a) = anchorTime a + task_duration a"
  "duration (anchorItem a) = task_duration a"
  by (simp_all add: anchorItem_def)

lemma blockTime_anchorItem [simp]: "blockTime (anchorItem a) = anchorTime a"
  by (simp add: blockTime_def anchorItem_def fixedItem_def anchorTime_def orElse_def truthy_def
      split: option.splits)

lemma mergeWalk_items:
  assumes "\<forall>f\<in>set fixed. 0 < task_duration f" and "\<forall>f\<in>set flex. 0 < task_duration f"
    and "b \<in> set (mergeWalk cur fixed flex)"
  shows "endAt b = start b + duration b \<and> 0 < duration b \<and> (isFixed b \<longrightarrow> start b = blockTime b)"
  using assms
proof (induction fixed arbitrary: cur flex)
  case Nil
  then show ?case using place_items [of flex b cur] by simp
next
  case (Cons a as)
  from Cons.prems(3) [unfolded mergeWalk_Cons]
  consider "b \<in> set (fst (beforeAnchor cur a flex))" | "b = anchorItem a"
    | "b \<in> set (mergeWalk (anchorTime a + task_duration a + 5) as (snd (beforeAnchor cur a flex)))"
    by auto
  then show ?case
  proof cases
    case 1
    from before_items [OF Cons.prems(2) 1] show ?thesis by simp
  next
    case 2
    then show ?thesis using Cons.prems(1) by simp
  next
    case 3
    have "\<forall>f\<in>set as. 0 < task_duration f" using Cons.prems(1) by simp
    from Cons.IH [OF this before_rest_pos [OF Cons.prems(2)] 3] show ?thesis .
  qed
qed

lemma mergeWalk_hd:
  assumes "\<forall>f\<in>set flex. 0 < task_duration f" and "mergeWalk cur fixed flex \<noteq> []"
  shows "if isFixed (hd (mergeWalk cur fixed flex))
         then fixed \<noteq> [] \<and> hd (mergeWalk cur fixed flex) = anchorItem (hd fixed)
         else start (hd (mergeWalk cur fixed flex)) = cur"
proof (cases fixed)
  case Nil
  with assms(2) have ne: "placeRemaining cur flex \<noteq> []" by simp
  then have "hd (placeRemaining cur flex) \<in> set (placeRemaining cur flex)" by simp
  from place_items [OF assms(1) this] place_hd [OF ne] show ?thesis
    by (simp add: Nil)
next
  case (Cons a as)
  show ?thesis
  proof (cases "fst (beforeAnchor cur a flex) = []")
    case True
    then show ?thesis by (simp add: Cons mergeWalk_Cons del: mergeWalk.simps)
  next
    case False
    then have "hd (fst (beforeAnchor cur a flex)) \<in> set (fst (beforeAnchor cur a flex))" by simp
    from before_items [OF assms(1) this] before_hd [OF False] False show ?thesis
      by (simp add: Cons mergeWalk_Cons del: mergeWalk.simps)
  qed
qed

lemma mergeWalk_link:
  assumes "\<forall>f\<in>set fixed. 0 < task_duration f" and "\<forall>f\<in>set flex. 0 < task_duration f"
    and "successively (\<lambda>x y. G (anchorTime x) (task_duration x) (anchorTime y)) fixed"
  shows "successively (link G) (mergeWalk cur fixed flex)"
  using assms
proof (induction fixed arbitrary: cur flex)
  case Nil
  have "successively (\<lambda>a b. start b = endAt a + 5) (placeRemaining cur flex)"
    by (rule place_successively)
  then have "successively (link G) (placeRemaining cur flex)"
  proof (rule successively_mono)
    fix x y
    assume "x \<in> set (placeRemaining cur flex)" "y \<in> set (placeRemaining cur flex)"
      "start y = endAt x + 5"
    with place_items [OF Nil.prems(2)] show "link G x y"
      by (simp add: link_def)
  qed
  then show ?case by simp
next
  case (Cons a as)
  define items where "items = fst (beforeAnchor cur a flex)"
  define rest where "rest = snd (beforeAnchor cur a flex)"
  define W where "W = mergeWalk (anchorTime a + task_duration a + 5) as rest"
  have unf: "mergeWalk cur (a # as) flex = items @ anchorItem a # W"
    by (simp add: mergeWalk_Cons items_def rest_def W_def del: mergeWalk.simps)
  have posas: "\<forall>f\<in>set as. 0 < task_duration f" using Cons.prems(1) by simp
  have posrest: "\<forall>f\<in>set rest. 0 < task_duration f"
    unfolding rest_def by (rule before_rest_pos [OF Cons.prems(2)])
  have sucas: "successively (\<lambda>x y. G (anchorTime x) (task_duration x) (anchorTime y)) as"
    using Cons.prems(3) by (auto simp: successively_Cons)
  have sW: "successively (link G) W"
    unfolding W_def by (rule Cons.IH [OF posas posrest sucas])
  have sI: "successively (link G) items"
  proof (rule successively_mono)
    show "successively (\<lambda>a b. start b = endAt a + 5) items"
      unfolding items_def by (rule before_successively [OF Cons.prems(2)])
  next
    fix x y
    assume "x \<in> set items" "y \<in> set items" "start y = endAt x + 5"
    with before_items [OF Cons.prems(2), of _ cur a] show "link G x y"
      by (simp add: link_def items_def)
  qed
  have jA: "link G (last items) (anchorItem a)" if "items \<noteq> []"
  proof -
    from that have "last items \<in> set (fst (beforeAnchor cur a flex))"
      by (simp add: items_def)
    from before_items [OF Cons.prems(2) this] show ?thesis
      by (simp add: link_def)
  qed
  have jW: "link G (anchorItem a) (hd W)" if ne: "W \<noteq> []"
  proof (cases "isFixed (hd W)")
    case True
    from mergeWalk_hd [OF posrest ne [unfolded W_def]] True
    have asne: "as \<noteq> []" and h: "hd W = anchorItem (hd as)"
      by (simp_all add: W_def)
    from asne obtain a' as' where "as = a' # as'" by (cases as) auto
    with Cons.prems(3) have "G (anchorTime a) (task_duration a) (anchorTime (hd as))"
      by simp
    then show ?thesis by (simp add: link_def h)
  next
    case False
    from mergeWalk_hd [OF posrest ne [unfolded W_def]] False
    have "start (hd W) = anchorTime a + task_duration a + 5"
      by (simp add: W_def)
    with False show ?thesis by (simp add: link_def)
  qed
  have sAW: "successively (link G) (anchorItem a # W)"
    unfolding successively_Cons using sW jW by auto
  show ?case
    unfolding unf successively_append_iff using sI sAW jA by auto
qed

lemma pos_fixedTasksOf:
  "positiveDurations ts \<Longrightarrow> \<forall>f\<in>set (fixedTasksOf ckey ts). 0 < task_duration f"
  by (auto simp: positiveDurations_def fixedTasksOf_def list_all_iff)

lemma pos_flexibleTasksOf:
  "positiveDurations ts \<Longrightarrow> \<forall>f\<in>set (flexibleTasksOf ckey ts). 0 < task_duration f"
  by (auto simp: positiveDurations_def flexibleTasksOf_def list_all_iff)

lemma link_imp_start_le:
  assumes "link G a b" and "endAt a = start a + duration a" and "0 < duration a"
    and "\<And>s d s'. G s d s' \<Longrightarrow> s \<le> s'"
  shows "start a \<le> start b"
proof (cases "isFixed a \<and> isFixed b")
  case True
  with assms(1) have "G (start a) (duration a) (start b)" by (simp add: link_def)
  then show ?thesis by (rule assms(4))
next
  case False
  with assms(1) have "endAt a \<le> start b" by (auto simp: link_def split: if_splits)
  with assms(2,3) show ?thesis by simp
qed

lemma mergeWalk_sorted:
  assumes "\<forall>f\<in>set fixed. 0 < task_duration f" and "\<forall>f\<in>set flex. 0 < task_duration f"
    and "sorted (map anchorTime fixed)"
  shows "sorted (map start (mergeWalk cur fixed flex))"
proof -
  have "sorted_wrt (\<lambda>x y. anchorTime x \<le> anchorTime y) fixed"
    using assms(3) by (simp add: sorted_map)
  then have "successively (\<lambda>x y. anchorTime x \<le> anchorTime y) fixed"
    by (rule successively_if_sorted_wrt)
  from mergeWalk_link [where G = "\<lambda>s d s'. s \<le> s'", OF assms(1,2) this]
  have l: "successively (link (\<lambda>s d s'. s \<le> s')) (mergeWalk cur fixed flex)" .
  have "successively (\<lambda>a b. start a \<le> start b) (mergeWalk cur fixed flex)"
    using l
  proof (rule successively_mono)
    fix x y
    assume x: "x \<in> set (mergeWalk cur fixed flex)" and "link (\<lambda>s d s'. s \<le> s') x y"
    with mergeWalk_items [OF assms(1,2) x] show "start x \<le> start y"
      by (auto intro: link_imp_start_le)
  qed
  moreover have "transp (\<lambda>a b. start a \<le> start (b::ScheduleItem))"
    by (auto simp: transp_def)
  ultimately have "sorted_wrt (\<lambda>a b. start a \<le> start b) (mergeWalk cur fixed flex)"
    by (simp add: successively_conv_sorted_wrt)
  then show ?thesis by (simp add: sorted_map)
qed

lemma generateSchedule_is_walk:
  assumes "positiveDurations ts" and "timeOrderedAnchors ckey ts"
  shows "generateSchedule ckey st ts =
         mergeWalk (timeOfDay st) (fixedTasksOf ckey ts) (flexibleTasksOf ckey ts)"
  unfolding generateSchedule_def
  by (rule sort_key_id_if_sorted)
     (rule mergeWalk_sorted [OF pos_fixedTasksOf [OF assms(1)] pos_flexibleTasksOf [OF assms(1)]
        assms(2) [unfolded timeOrderedAnchors_def]])

lemma disjoint_imp_ordered:
  assumes "positiveDurations ts" and "disjointAnchors ckey ts"
  shows "timeOrderedAnchors ckey ts"
proof -
  have "successively (\<lambda>a b. anchorTime a \<le> anchorTime b) (fixedTasksOf ckey ts)"
    using assms(2) [unfolded disjointAnchors_def]
  proof (rule successively_mono)
    fix x y
    assume "x \<in> set (fixedTasksOf ckey ts)" "anchorTime x + task_duration x \<le> anchorTime y"
    with pos_fixedTasksOf [OF assms(1), of ckey] show "anchorTime x \<le> anchorTime y"
      by fastforce
  qed
  moreover have "transp (\<lambda>a b. anchorTime a \<le> anchorTime b)"
    by (auto simp: transp_def)
  ultimately have "sorted_wrt (\<lambda>a b. anchorTime a \<le> anchorTime b) (fixedTasksOf ckey ts)"
    by (simp add: successively_conv_sorted_wrt)
  then show ?thesis by (simp add: timeOrderedAnchors_def sorted_map)
qed

lemma fill_no_fixed: "filter isFixed (fst (fillBeforeAnchor cur fx flex)) = []"
  by (induction flex arbitrary: cur) (simp_all add: Let_def)

lemma place_no_fixed: "filter isFixed (placeRemaining cur flex) = []"
  by (induction flex arbitrary: cur) (simp_all add: Let_def)

lemma before_no_fixed: "filter isFixed (fst (beforeAnchor cur a flex)) = []"
  by (simp add: beforeAnchor_def fill_no_fixed)

lemma mergeWalk_fixed: "filter isFixed (mergeWalk cur fixed flex) = map anchorItem fixed"
  by (induction fixed arbitrary: cur flex)
     (simp_all add: place_no_fixed mergeWalk_Cons before_no_fixed del: mergeWalk.simps(2))

lemma mergeWalk_noOverlap:
  assumes "\<forall>f\<in>set fixed. 0 < task_duration f" and "\<forall>f\<in>set flex. 0 < task_duration f"
    and "successively (\<lambda>a b. anchorTime a + task_duration a \<le> anchorTime b) fixed"
  shows "noOverlap (mergeWalk cur fixed flex)"
  unfolding noOverlap_def
  using mergeWalk_link [where G = "\<lambda>s d s'. s + d \<le> s'", OF assms]
proof (rule successively_mono)
  fix x y
  assume x: "x \<in> set (mergeWalk cur fixed flex)" and "link (\<lambda>s d s'. s + d \<le> s') x y"
  with mergeWalk_items [OF assms(1,2) x] show "endAt x \<le> start y"
    by (auto simp: link_def split: if_splits)
qed

lemma successively_True: "successively (\<lambda>x y. True) xs"
  by (induction xs rule: induct_list012) simp_all

lemma itemView_flexItem:
  "\<not> truthy (task_fixedTime t) \<Longrightarrow> itemView (flexItem t s e) = taskView t"
  by (simp add: itemView_def taskView_def flexItem_def)

lemma itemView_anchorItem:
  "truthy (task_fixedTime t) \<Longrightarrow> itemView (anchorItem t) = taskView t"
  by (simp add: itemView_def taskView_def anchorItem_def fixedItem_def)

lemma fill_views:
  assumes "\<forall>f\<in>set flex. \<not> truthy (task_fixedTime f)"
  shows "map itemView (fst (fillBeforeAnchor cur fx flex)) @
         map taskView (snd (fillBeforeAnchor cur fx flex)) = map taskView flex"
  using assms
proof (induction flex arbitrary: cur)
  case Nil
  then show ?case by simp
next
  case (Cons f fs)
  from Cons.prems have f: "\<not> truthy (task_fixedTime f)"
    and fs: "\<forall>f\<in>set fs. \<not> truthy (task_fixedTime f)"
    by simp_all
  show ?case
    by (simp add: Let_def itemView_flexItem [OF f] Cons.IH [OF fs])
qed

lemma before_views:
  assumes "\<forall>f\<in>set flex. \<not> truthy (task_fixedTime f)"
  shows "map itemView (fst (beforeAnchor cur a flex)) @
         map taskView (snd (beforeAnchor cur a flex)) = map taskView flex"
  using fill_views [OF assms] by (simp add: beforeAnchor_def)

lemma place_views:
  assumes "\<forall>f\<in>set flex. \<not> truthy (task_fixedTime f)"
  shows "map itemView (placeRemaining cur flex) = map taskView flex"
  using assms
proof (induction flex arbitrary: cur)
  case Nil
  then show ?case by simp
next
  case (Cons f fs)
  from Cons.prems have f: "\<not> truthy (task_fixedTime f)"
    and fs: "\<forall>f\<in>set fs. \<not> truthy (task_fixedTime f)"
    by simp_all
  show ?case
    by (simp add: Let_def itemView_flexItem [OF f] Cons.IH [OF fs])
qed

lemma mergeWalk_views:
  assumes "\<forall>f\<in>set fixed. truthy (task_fixedTime f)"
    and "\<forall>f\<in>set flex. \<not> truthy (task_fixedTime f)"
  shows "mset (map itemView (mergeWalk cur fixed flex)) =
         mset (map taskView fixed) + mset (map taskView flex)"
  using assms
proof (induction fixed arbitrary: cur flex)
  case Nil
  then show ?case by (simp add: place_views)
next
  case (Cons a as)
  define items where "items = fst (beforeAnchor cur a flex)"
  define rest where "rest = snd (beforeAnchor cur a flex)"
  define W where "W = mergeWalk (anchorTime a + task_duration a + 5) as rest"
  have r: "\<forall>f\<in>set rest. \<not> truthy (task_fixedTime f)"
    using before_rest_subset [of cur a flex] Cons.prems(2) by (auto simp: rest_def)
  have as: "\<forall>f\<in>set as. truthy (task_fixedTime f)" and a: "truthy (task_fixedTime a)"
    using Cons.prems(1) by simp_all
  have W: "mset (map itemView W) = mset (map taskView as) + mset (map taskView rest)"
    unfolding W_def by (rule Cons.IH [OF as r])
  have split: "mset (map itemView items) + mset (map taskView rest) = mset (map taskView flex)"
    using arg_cong [OF before_views [OF Cons.prems(2), of cur a], of mset]
    by (simp add: items_def rest_def)
  have "mset (map itemView (mergeWalk cur (a # as) flex)) =
        mset (map itemView items) + ({#taskView a#} + mset (map itemView W))"
    by (simp add: mergeWalk_Cons items_def rest_def W_def itemView_anchorItem [OF a]
        del: mergeWalk.simps(2))
  also have "\<dots> = ({#taskView a#} + mset (map taskView as)) +
        (mset (map itemView items) + mset (map taskView rest))"
    by (simp only: W ac_simps)
  also have "\<dots> = mset (map taskView (a # as)) + mset (map taskView flex)"
    by (simp only: split) simp
  finally show ?case .
qed

lemma fill_end:
  "b \<in> set (fst (fillBeforeAnchor cur fx flex)) \<Longrightarrow> endAt b = start b + duration b"
  by (induction flex arbitrary: cur) (auto simp: Let_def split: if_splits)

lemma place_end:
  "b \<in> set (placeRemaining cur flex) \<Longrightarrow> endAt b = start b + duration b"
  by (induction flex arbitrary: cur) (auto simp: Let_def split: if_splits)

lemma mergeWalk_end:
  "b \<in> set (mergeWalk cur fixed flex) \<Longrightarrow> endAt b = start b + duration b"
proof (induction fixed arbitrary: cur flex)
  case Nil
  then show ?case by (simp add: place_end)
next
  case (Cons a as)
  from Cons.prems [unfolded mergeWalk_Cons]
  consider "b \<in> set (fst (beforeAnchor cur a flex))" | "b = anchorItem a"
    | "b \<in> set (mergeWalk (anchorTime a + task_duration a + 5) as (snd (beforeAnchor cur a flex)))"
    by auto
  then show ?case
  proof cases
    case 1
    then show ?thesis by (auto simp: beforeAnchor_def fill_end split: if_splits)
  next
    case 2
    then show ?thesis by simp
  next
    case 3
    then show ?thesis by (rule Cons.IH)
  qed
qed

lemma generateSchedule_views:
  "mset (map itemView (generateSchedule ckey st ts)) = mset (map taskView ts)"
proof -
  have "mset (map itemView (generateSchedule ckey st ts)) =
        mset (map itemView (mergeWalk (timeOfDay st) (fixedTasksOf ckey ts) (flexibleTasksOf ckey ts)))"
    by (simp add: generateSchedule_def)
  also have "\<dots> = mset (map taskView (fixedTasksOf ckey ts)) + mset (map taskView (flexibleTasksOf ckey ts))"
    by (rule mergeWalk_views) (simp_all add: fixedTasksOf_def flexibleTasksOf_def)
  also have "\<dots> = mset (map taskView ts)"
    by (simp add: fixedTasksOf_def flexibleTasksOf_def image_mset_union [symmetric]
        del: image_mset_union)
  finally show ?thesis .
qed

lemma find_fixed_flex_prefix:
  "\<forall>b\<in>set xs. \<not> isFixed b \<Longrightarrow> find isFixed (xs @ ys) = find isFixed ys"
  by (induction xs) simp_all

lemma find_fixed_none: "\<forall>b\<in>set xs. \<not> isFixed b \<Longrightarrow> find isFixed xs = None"
  by (induction xs) simp_all

lemma flexBeforeAnchor_flex_only: "\<forall>b\<in>set xs. \<not> isFixed b \<Longrightarrow> flexBeforeAnchor P xs"
  by (induction xs) (simp_all add: find_fixed_none)

lemma flexBeforeAnchor_prefix:
  assumes "\<forall>b\<in>set xs. \<not> isFixed b" and "isFixed a" and "\<forall>b\<in>set xs. P b a"
    and "flexBeforeAnchor P W"
  shows "flexBeforeAnchor P (xs @ a # W)"
  using assms(1,3)
proof (induction xs)
  case Nil
  then show ?case using assms(2,4) by (simp split: option.splits)
next
  case (Cons x xs)
  then show ?case using assms(2) by (simp add: find_fixed_flex_prefix)
qed

lemma firstBeforeAnchor_flex_only: "\<forall>b\<in>set xs. \<not> isFixed b \<Longrightarrow> firstBeforeAnchor p xs"
  by (induction xs arbitrary: p) (simp_all add: find_fixed_none)

lemma firstBeforeAnchor_prefix:
  assumes "\<forall>b\<in>set xs. \<not> isFixed b" and "isFixed a"
    and "xs \<noteq> [] \<Longrightarrow> 10 \<le> start a - start (hd xs)"
    and "firstBeforeAnchor True W"
  shows "firstBeforeAnchor p (xs @ a # W)"
proof (cases xs)
  case Nil
  then show ?thesis using assms(2,4) by (simp split: option.splits)
next
  case (Cons x xs')
  have tl: "firstBeforeAnchor False (xs' @ a # W)" if "\<forall>b\<in>set xs'. \<not> isFixed b" for xs'
    using that
  proof (induction xs')
    case Nil
    then show ?case using assms(2,4) by (simp split: option.splits)
  next
    case (Cons y ys)
    then show ?case using assms(2) by (simp add: find_fixed_flex_prefix)
  qed
  from assms(1) Cons have x: "\<not> isFixed x" and xs': "\<forall>b\<in>set xs'. \<not> isFixed b"
    by simp_all
  from assms(3) Cons have "10 \<le> start a - start x" by simp
  with tl [OF xs'] x xs' assms(2) show ?thesis
    by (simp add: Cons find_fixed_flex_prefix)
qed

lemma fill_flex: "\<forall>b\<in>set (fst (fillBeforeAnchor cur fx flex)). \<not> isFixed b"
  using fill_no_fixed [of cur fx flex] by (simp add: filter_empty_conv)

lemma fill_fits:
  "b \<in> set (fst (fillBeforeAnchor cur fx flex)) \<Longrightarrow> start b + duration b + 5 \<le> fx"
  by (induction flex arbitrary: cur) (auto simp: Let_def split: if_splits)

lemma before_flex: "\<forall>b\<in>set (fst (beforeAnchor cur a flex)). \<not> isFixed b"
  using before_no_fixed [of cur a flex] by (simp add: filter_empty_conv)

lemma before_fits:
  "b \<in> set (fst (beforeAnchor cur a flex)) \<Longrightarrow> start b + duration b + 5 \<le> anchorTime a"
  by (auto simp: beforeAnchor_def fill_fits split: if_splits)

lemma place_flex: "\<forall>b\<in>set (placeRemaining cur flex). \<not> isFixed b"
  using place_no_fixed [of cur flex] by (simp add: filter_empty_conv)

lemma mergeWalk_fits:
  "flexBeforeAnchor (\<lambda>b a. start b + duration b + 5 \<le> start a) (mergeWalk cur fixed flex)"
proof (induction fixed arbitrary: cur flex)
  case Nil
  then show ?case by (simp add: flexBeforeAnchor_flex_only place_flex)
next
  case (Cons a as)
  show ?case
    unfolding mergeWalk_Cons
    by (rule flexBeforeAnchor_prefix) (simp_all add: before_flex before_fits Cons.IH)
qed

lemma mergeWalk_entry_gap:
  "firstBeforeAnchor p (mergeWalk cur fixed flex)"
proof (induction fixed arbitrary: cur flex p)
  case Nil
  then show ?case by (simp add: firstBeforeAnchor_flex_only place_flex)
next
  case (Cons a as)
  show ?case
    unfolding mergeWalk_Cons
  proof (rule firstBeforeAnchor_prefix)
    assume "fst (beforeAnchor cur a flex) \<noteq> []"
    from before_hd [OF this]
    show "10 \<le> start (anchorItem a) - start (hd (fst (beforeAnchor cur a flex)))"
      by simp
  qed (simp_all add: before_flex Cons.IH)
qed

section \<open>The merge walk: what is deferred, and in which order\<close>

lemma fill_rest_head:
  assumes "snd (fillBeforeAnchor cur fx flex) \<noteq> []"
  shows "fx < (if fst (fillBeforeAnchor cur fx flex) = [] then cur
               else endAt (last (fst (fillBeforeAnchor cur fx flex))) + 5) +
              task_duration (hd (snd (fillBeforeAnchor cur fx flex))) + 5"
  using assms
proof (induction flex arbitrary: cur)
  case Nil
  then show ?case by simp
next
  case (Cons f fs)
  show ?case
  proof (cases "cur + (task_duration f + 5) > fx")
    case True
    then show ?thesis by simp
  next
    case False
    define e where "e = cur + task_duration f"
    define cur' where "cur' = (if e + 5 < fx \<and> fs \<noteq> [] then e + 5 else e)"
    have fst_unf: "fst (fillBeforeAnchor cur fx (f # fs)) =
        flexItem f cur e # fst (fillBeforeAnchor cur' fx fs)"
      and snd_unf: "snd (fillBeforeAnchor cur fx (f # fs)) = snd (fillBeforeAnchor cur' fx fs)"
      using False by (simp_all add: Let_def cur'_def e_def)
    from Cons.prems snd_unf have ne: "snd (fillBeforeAnchor cur' fx fs) \<noteq> []" by simp
    have le: "cur' \<le> e + 5" by (simp add: cur'_def)
    from Cons.IH [OF ne] le show ?thesis
      unfolding fst_unf snd_unf by (simp split: if_splits)
  qed
qed

lemma fill_nothing_placed:
  "fst (fillBeforeAnchor cur fx flex) = [] \<Longrightarrow> snd (fillBeforeAnchor cur fx flex) = flex"
  by (cases flex) (simp_all add: Let_def split: if_splits)

lemma fill_first_placed:
  "fst (fillBeforeAnchor cur fx flex) \<noteq> [] \<Longrightarrow>
   flex \<noteq> [] \<and> duration (hd (fst (fillBeforeAnchor cur fx flex))) = task_duration (hd flex)"
  by (cases flex) (simp_all add: Let_def split: if_splits)

lemma before_rest_head:
  assumes "snd (beforeAnchor cur a flex) \<noteq> []"
  shows "(fst (beforeAnchor cur a flex) = [] \<and> anchorTime a - cur < 10) \<or>
         anchorTime a <
           (if fst (beforeAnchor cur a flex) = [] then cur
            else endAt (last (fst (beforeAnchor cur a flex))) + 5) +
           task_duration (hd (snd (beforeAnchor cur a flex))) + 5"
proof (cases "anchorTime a - cur \<ge> 10 \<and> flex \<noteq> []")
  case True
  then have eq: "beforeAnchor cur a flex = fillBeforeAnchor cur (anchorTime a) flex"
    by (simp add: beforeAnchor_def)
  from assms fill_rest_head [of cur "anchorTime a" flex] show ?thesis
    by (auto simp: eq split: if_splits)
next
  case False
  then have eq: "beforeAnchor cur a flex = ([], flex)"
    by (auto simp: beforeAnchor_def)
  with assms False show ?thesis by auto
qed

lemma before_nothing_placed:
  "fst (beforeAnchor cur a flex) = [] \<Longrightarrow> snd (beforeAnchor cur a flex) = flex"
  by (simp add: beforeAnchor_def fill_nothing_placed split: if_splits)

lemma before_first_placed:
  "fst (beforeAnchor cur a flex) \<noteq> [] \<Longrightarrow>
   flex \<noteq> [] \<and> duration (hd (fst (beforeAnchor cur a flex))) = task_duration (hd flex)"
  by (simp add: beforeAnchor_def fill_first_placed split: if_splits)

lemma find_flex_append:
  "xs \<noteq> [] \<Longrightarrow> \<forall>b\<in>set xs. \<not> isFixed b \<Longrightarrow>
   find (\<lambda>c. \<not> isFixed c) (xs @ ys) = Some (hd xs)"
  by (cases xs) simp_all

lemma mergeWalk_first_flexible:
  "case find (\<lambda>c. \<not> isFixed c) (mergeWalk cur fixed flex) of
     None \<Rightarrow> flex = []
   | Some c \<Rightarrow> flex \<noteq> [] \<and> duration c = task_duration (hd flex)"
proof (induction fixed arbitrary: cur flex)
  case Nil
  show ?case by (cases flex) (simp_all add: Let_def)
next
  case (Cons a as)
  show ?case
  proof (cases "fst (beforeAnchor cur a flex) = []")
    case True
    with Cons.IH [where cur = "anchorTime a + task_duration a + 5" and flex = flex] show ?thesis
      by (simp add: mergeWalk_Cons before_nothing_placed del: mergeWalk.simps(2))
  next
    case False
    from find_flex_append [OF False before_flex] before_first_placed [OF False] show ?thesis
      by (simp add: mergeWalk_Cons del: mergeWalk.simps(2))
  qed
qed

lemma deferred_flex_only:
  "\<forall>b\<in>set xs. \<not> isFixed b \<Longrightarrow> deferredDidNotFit cur r xs"
  by (induction xs arbitrary: cur r) (simp_all split: option.splits)

lemma deferred_prefix:
  assumes "\<forall>b\<in>set xs. \<not> isFixed b"
    and "deferredDidNotFit (if xs = [] then cur else endAt (last xs) + 5) (if xs = [] then r else True) ys"
  shows "deferredDidNotFit cur r (xs @ ys)"
  using assms
proof (induction xs arbitrary: cur r)
  case Nil
  then show ?case by simp
next
  case (Cons x xs)
  from Cons.prems(1) have x: "\<not> isFixed x" and xs: "\<forall>b\<in>set xs. \<not> isFixed b"
    by simp_all
  have "deferredDidNotFit (endAt x + 5) True (xs @ ys)"
  proof (rule Cons.IH [OF xs])
    from Cons.prems(2)
    show "deferredDidNotFit (if xs = [] then endAt x + 5 else endAt (last xs) + 5)
            (if xs = [] then True else True) ys"
      by (simp split: if_splits)
  qed
  with x show ?case by (simp split: option.splits)
qed

lemma mergeWalk_deferred:
  "deferredDidNotFit cur False (mergeWalk cur fixed flex)"
proof (induction fixed arbitrary: cur flex)
  case Nil
  then show ?case by (simp add: deferred_flex_only place_flex)
next
  case (Cons a as)
  define items where "items = fst (beforeAnchor cur a flex)"
  define rest where "rest = snd (beforeAnchor cur a flex)"
  define W where "W = mergeWalk (anchorTime a + task_duration a + 5) as rest"
  have unf: "mergeWalk cur (a # as) flex = items @ anchorItem a # W"
    by (simp add: mergeWalk_Cons items_def rest_def W_def del: mergeWalk.simps(2))
  have W: "deferredDidNotFit (anchorTime a + task_duration a + 5) False W"
    unfolding W_def by (rule Cons.IH)
  have first: "case find (\<lambda>c. \<not> isFixed c) W of None \<Rightarrow> rest = []
     | Some c \<Rightarrow> rest \<noteq> [] \<and> duration c = task_duration (hd rest)"
    unfolding W_def by (rule mergeWalk_first_flexible)
  have head: "(items = [] \<and> anchorTime a - cur < 10) \<or>
         anchorTime a < (if items = [] then cur else endAt (last items) + 5) +
           task_duration (hd rest) + 5" if "rest \<noteq> []"
    using before_rest_head [of cur a flex] that by (auto simp: items_def rest_def split: if_splits)
  have "deferredDidNotFit (if items = [] then cur else endAt (last items) + 5)
          (if items = [] then False else True) (anchorItem a # W)"
  proof (cases "find (\<lambda>c. \<not> isFixed c) W")
    case None
    then show ?thesis using W by simp
  next
    case (Some c)
    with first have r: "rest \<noteq> []" and d: "duration c = task_duration (hd rest)"
      by simp_all
    from head [OF r] d Some W show ?thesis
      by (auto split: if_splits)
  qed
  then show ?case
    unfolding unf by (rule deferred_prefix [rotated]) (simp add: items_def before_flex)
qed

lemma placedAtCursor_walk:
  assumes "successively (\<lambda>a b. \<not> isFixed b \<longrightarrow> start b = endAt a + 5) xs"
    and "xs \<noteq> [] \<Longrightarrow> isFixed (hd xs) \<or> start (hd xs) = cur"
  shows "placedAtCursor cur xs"
  using assms
proof (induction xs arbitrary: cur)
  case Nil
  then show ?case by simp
next
  case (Cons x xs)
  have "placedAtCursor (endAt x + 5) xs"
  proof (rule Cons.IH)
    show "successively (\<lambda>a b. \<not> isFixed b \<longrightarrow> start b = endAt a + 5) xs"
      using Cons.prems(1) by (auto simp: successively_Cons)
    show "isFixed (hd xs) \<or> start (hd xs) = endAt x + 5" if "xs \<noteq> []"
      using Cons.prems(1) that by (auto simp: successively_Cons)
  qed
  with Cons.prems(2) show ?case by simp
qed

lemma mergeWalk_placedAtCursor:
  assumes "\<forall>f\<in>set fixed. 0 < task_duration f" and "\<forall>f\<in>set flex. 0 < task_duration f"
  shows "placedAtCursor cur (mergeWalk cur fixed flex)"
proof (rule placedAtCursor_walk)
  have "successively (link (\<lambda>s d s'. True)) (mergeWalk cur fixed flex)"
    by (rule mergeWalk_link [OF assms successively_True])
  then show "successively (\<lambda>a b. \<not> isFixed b \<longrightarrow> start b = endAt a + 5) (mergeWalk cur fixed flex)"
    by (rule successively_mono) (simp add: link_def split: if_splits)
next
  assume "mergeWalk cur fixed flex \<noteq> []"
  from mergeWalk_hd [OF assms(2) this]
  show "isFixed (hd (mergeWalk cur fixed flex)) \<or> start (hd (mergeWalk cur fixed flex)) = cur"
    by (simp split: if_splits)
qed

lemma filter_flex_id: "\<forall>b\<in>set xs. \<not> isFixed b \<Longrightarrow> filter (\<lambda>b. \<not> isFixed b) xs = xs"
  by (induction xs) simp_all

lemma mergeWalk_flexible_order:
  assumes "\<forall>f\<in>set flex. \<not> truthy (task_fixedTime f)"
  shows "map itemView (filter (\<lambda>b. \<not> isFixed b) (mergeWalk cur fixed flex)) = map taskView flex"
  using assms
proof (induction fixed arbitrary: cur flex)
  case Nil
  then show ?case by (simp add: filter_flex_id [OF place_flex] place_views)
next
  case (Cons a as)
  have r: "\<forall>f\<in>set (snd (beforeAnchor cur a flex)). \<not> truthy (task_fixedTime f)"
    using before_rest_subset [of cur a flex] Cons.prems by blast
  show ?case
    by (simp add: mergeWalk_Cons filter_flex_id [OF before_flex] Cons.IH [OF r]
        before_views [OF Cons.prems] del: mergeWalk.simps(2))
qed

section \<open>generateSchedule: the claims\<close>

text \<open>
  A scenario of section 8 of the specification: a 15-minute stand-up fixed at
  09:30 and a 45-minute flexible task, from 09:00. The task does not fit into the 30
  minutes before the anchor and is placed after it.
\<close>

lemma spec_scenario_standup:
  "map placement (generateSchedule codeUnitKey ''09:00'' [standup, report]) = [(''Standup'', 570, 585), (''Write report'', 590, 635)]"
  by code_simp

text \<open>
  A day with two anchors, 09:30 and 12:00, and three flexible tasks, from 09:00: two
  tasks fit before the first anchor, the third is deferred to the slack before the
  second.
\<close>

lemma dayTasks_schedule:
  "map placement (generateSchedule codeUnitKey ''09:00'' dayTasks) =
     [(''Mail'', 540, 557), (''Call'', 562, 565), (''Standup'', 570, 585),
      (''Write report'', 590, 635), (''Lunch'', 720, 750)]"
  by code_simp

text \<open>
  C1 (sorted, anchored, disjoint). For well-formed input the blocks of
  \<open>generateSchedule\<close> are sorted by \<open>start\<close>, and the anchors' blocks are exactly the
  blocks \<open>anchorItem\<close> gives the tasks with a fixed time: each starts at its fixed time
  and has its whole duration. No two blocks overlap provided no anchor runs into the next
  anchor; the scheduler never moves an anchor, so two anchors that overlap as given
  overlap in the schedule.
\<close>

theorem schedule_sorted_anchored_disjoint:
  assumes "wellFormedInput st ts"
  shows "sorted (map start (generateSchedule ckey st ts)) \<and>
         mset (filter isFixed (generateSchedule ckey st ts)) =
           mset (map anchorItem (filter (\<lambda>t. truthy (task_fixedTime t)) ts)) \<and>
         (disjointAnchors ckey ts \<longrightarrow> noOverlap (generateSchedule ckey st ts))"
proof (intro conjI impI)
  show "sorted (map start (generateSchedule ckey st ts))"
    by (simp add: generateSchedule_def)
next
  have "mset (filter isFixed (generateSchedule ckey st ts)) =
        mset (filter isFixed (mergeWalk (timeOfDay st) (fixedTasksOf ckey ts) (flexibleTasksOf ckey ts)))"
    by (simp add: generateSchedule_def)
  also have "\<dots> = mset (map anchorItem (fixedTasksOf ckey ts))"
    by (simp only: mergeWalk_fixed)
  also have "\<dots> = mset (map anchorItem (filter (\<lambda>t. truthy (task_fixedTime t)) ts))"
    by (simp add: fixedTasksOf_def)
  finally show "mset (filter isFixed (generateSchedule ckey st ts)) =
           mset (map anchorItem (filter (\<lambda>t. truthy (task_fixedTime t)) ts))" .
next
  assume d: "disjointAnchors ckey ts"
  from assms have pos: "positiveDurations ts" by (simp add: wellFormedInput_def)
  from generateSchedule_is_walk [OF pos disjoint_imp_ordered [OF pos d]]
    mergeWalk_noOverlap [OF pos_fixedTasksOf [OF pos] pos_flexibleTasksOf [OF pos]
      d [unfolded disjointAnchors_def]]
  show "noOverlap (generateSchedule ckey st ts)" by simp
qed

theorem schedule_sorted_anchored_disjoint_witness:
  "wellFormedInput ''09:00'' dayTasks \<and>
   disjointAnchors codeUnitKey dayTasks \<and>
   sorted (map start (generateSchedule codeUnitKey ''09:00'' dayTasks)) \<and>
   mset (filter isFixed (generateSchedule codeUnitKey ''09:00'' dayTasks)) =
     mset (map anchorItem (filter (\<lambda>t. truthy (task_fixedTime t)) dayTasks)) \<and>
   noOverlap (generateSchedule codeUnitKey ''09:00'' dayTasks)"
proof -
  have w: "wellFormedInput ''09:00'' dayTasks"
    by code_simp
  have d: "disjointAnchors codeUnitKey dayTasks"
    by code_simp
  from schedule_sorted_anchored_disjoint [OF w, of codeUnitKey] w d show ?thesis
    by blast
qed

text \<open>
  The claim without the proviso fails: a 60-minute anchor at 09:00 and an anchor at 09:30
  are both placed at their fixed times.
\<close>

theorem overlapping_anchors_overlap:
  "wellFormedInput ''09:00'' [review, standup] \<and>
   map placement (generateSchedule codeUnitKey ''09:00'' [review, standup]) =
     [(''Review'', 540, 600), (''Standup'', 570, 585)] \<and>
   \<not> noOverlap (generateSchedule codeUnitKey ''09:00'' [review, standup])"
  by code_simp

text \<open>
  C2 (one block per task). The blocks of \<open>generateSchedule\<close> copy the tasks one to one:
  the multiset of what the blocks carry is the multiset of what the tasks carry, so no
  task is dropped and none is placed twice. Each block lasts its task's duration, and the
  scheduled minutes add up to the tasks' durations.
\<close>

theorem one_block_per_task:
  assumes "validTimes st ts"
  shows "mset (map itemView (generateSchedule ckey st ts)) = mset (map taskView ts) \<and>
         length (generateSchedule ckey st ts) = length ts \<and>
         list_all (\<lambda>b. endAt b - start b = duration b) (generateSchedule ckey st ts) \<and>
         sum_list (map (\<lambda>b. endAt b - start b) (generateSchedule ckey st ts)) =
           sum_list (map task_duration ts)"
proof (intro conjI)
  show v: "mset (map itemView (generateSchedule ckey st ts)) = mset (map taskView ts)"
    by (rule generateSchedule_views)
  from arg_cong [OF v, of size]
  show "length (generateSchedule ckey st ts) = length ts"
    by simp
  have e: "endAt b - start b = duration b" if "b \<in> set (generateSchedule ckey st ts)" for b
  proof -
    from that have "b \<in> set (mergeWalk (timeOfDay st) (fixedTasksOf ckey ts) (flexibleTasksOf ckey ts))"
      by (simp add: generateSchedule_def)
    from mergeWalk_end [OF this] show ?thesis by simp
  qed
  then show "list_all (\<lambda>b. endAt b - start b = duration b) (generateSchedule ckey st ts)"
    by (simp add: list_all_iff)
  have "sum_list (map (\<lambda>b. endAt b - start b) (generateSchedule ckey st ts)) =
        sum_list (map (\<lambda>b. viewDuration (itemView b)) (generateSchedule ckey st ts))"
    by (rule arg_cong [where f = sum_list]) (simp add: e viewDuration_def itemView_def)
  also have "\<dots> = sum_mset (image_mset viewDuration (mset (map itemView (generateSchedule ckey st ts))))"
    by (simp add: sum_mset_sum_list [symmetric] multiset.map_comp comp_def)
  also have "\<dots> = sum_mset (image_mset viewDuration (mset (map taskView ts)))"
    by (simp only: v)
  also have "\<dots> = sum_list (map task_duration ts)"
    by (simp add: sum_mset_sum_list [symmetric] multiset.map_comp comp_def viewDuration_def taskView_def
       )
  finally show "sum_list (map (\<lambda>b. endAt b - start b) (generateSchedule ckey st ts)) =
           sum_list (map task_duration ts)" .
qed

theorem one_block_per_task_witness:
  "validTimes ''09:00'' dayTasks \<and>
   mset (map itemView (generateSchedule codeUnitKey ''09:00'' dayTasks)) =
     mset (map taskView dayTasks) \<and>
   length (generateSchedule codeUnitKey ''09:00'' dayTasks) = 5 \<and>
   list_all (\<lambda>b. endAt b - start b = duration b)
     (generateSchedule codeUnitKey ''09:00'' dayTasks) \<and>
   sum_list (map (\<lambda>b. endAt b - start b) (generateSchedule codeUnitKey ''09:00'' dayTasks)) = 110"
proof -
  have v: "validTimes ''09:00'' dayTasks"
    by code_simp
  have s: "sum_list (map task_duration dayTasks) = 110" and l: "length dayTasks = 5"
    by (simp_all add: dayTasks_def lunch_def mail_def standup_def call_def report_def)
  from one_block_per_task [OF v, of codeUnitKey] v s l show ?thesis
    by simp
qed

text \<open>
  C3 (the 10-minute gap). \<open>generateSchedule\<close> tests the gap to the pending anchor once,
  before its inner loop, and the fit of each task inside the loop. For well-formed input
  whose anchors sort in the order of their times:
  \<^item> every flexible block placed before an anchor fits: start + duration + 5 minutes is at
    most the anchor's time;
  \<^item> the first block of each run before an anchor starts at least 10 minutes before it:
    with a gap below 10 minutes at that moment nothing is placed;
  \<^item> every flexible block starts at the cursor;
  \<^item> the flexible blocks are the flexible tasks in their sorted order;
  \<^item> the task that was next in line when an anchor was placed did not fit there, or no
    block had been placed before that anchor and the gap was below 10 minutes. So once a
    first task has been placed, further tasks are placed as long as they fit, whatever gap
    remains.
\<close>

theorem gap_checked_once_per_anchor:
  assumes "wellFormedInput st ts" and "timeOrderedAnchors ckey ts"
  shows "flexBeforeAnchor (\<lambda>b a. start b + duration b + 5 \<le> start a) (generateSchedule ckey st ts) \<and>
         firstBeforeAnchor True (generateSchedule ckey st ts) \<and>
         placedAtCursor (timeOfDay st) (generateSchedule ckey st ts) \<and>
         map itemView (filter (\<lambda>b. \<not> isFixed b) (generateSchedule ckey st ts)) =
           map taskView (flexibleTasksOf ckey ts) \<and>
         deferredDidNotFit (timeOfDay st) False (generateSchedule ckey st ts)"
proof -
  from assms have pos: "positiveDurations ts" by (simp add: wellFormedInput_def)
  have flex: "\<forall>f\<in>set (flexibleTasksOf ckey ts). \<not> truthy (task_fixedTime f)"
    by (simp add: flexibleTasksOf_def)
  show ?thesis
    by (simp only: generateSchedule_is_walk [OF pos assms(2)] mergeWalk_fits mergeWalk_entry_gap
        mergeWalk_placedAtCursor [OF pos_fixedTasksOf [OF pos] pos_flexibleTasksOf [OF pos]]
        mergeWalk_flexible_order [OF flex] mergeWalk_deferred simp_thms)
qed

theorem gap_checked_once_per_anchor_witness:
  "wellFormedInput ''09:00'' dayTasks \<and>
   timeOrderedAnchors codeUnitKey dayTasks \<and>
   flexBeforeAnchor (\<lambda>b a. start b + duration b + 5 \<le> start a)
     (generateSchedule codeUnitKey ''09:00'' dayTasks) \<and>
   firstBeforeAnchor True (generateSchedule codeUnitKey ''09:00'' dayTasks) \<and>
   placedAtCursor 540 (generateSchedule codeUnitKey ''09:00'' dayTasks) \<and>
   map itemView (filter (\<lambda>b. \<not> isFixed b) (generateSchedule codeUnitKey ''09:00'' dayTasks)) =
     map taskView [mail, call, report] \<and>
   deferredDidNotFit 540 False (generateSchedule codeUnitKey ''09:00'' dayTasks)"
proof -
  have w: "wellFormedInput ''09:00'' dayTasks"
    by code_simp
  have t: "timeOrderedAnchors codeUnitKey dayTasks"
    by code_simp
  have s: "timeOfDay ''09:00'' = 540"
    by code_simp
  have f: "flexibleTasksOf codeUnitKey dayTasks = [mail, call, report]"
    by code_simp
  from gap_checked_once_per_anchor [OF w t] w t show ?thesis
    by (simp only: s f simp_thms)
qed

text \<open>
  The last property tells the walk from its neighbours. A walk that tested the gap again
  for each task would defer the 3-minute task at 09:22 and place it after the anchor; a
  walk that placed nothing before the anchor would defer both tasks. Neither schedule has
  the property; the schedule with both tasks before the anchor has it.
\<close>

lemma other_placements_rejected:
  "\<not> deferredDidNotFit 540 False [mailItem 540 557, standupItem, callItem 590 593]"
  "\<not> deferredDidNotFit 540 False [standupItem, mailItem 590 607, callItem 612 615]"
  "deferredDidNotFit 540 False [mailItem 540 557, callItem 562 565, standupItem]"
  by code_simp+

text \<open>
  The gap is not part of the loop's condition: after a 17-minute task from 09:00 the
  cursor is at 09:22, 8 minutes before the anchor at 09:30, and the 3-minute task is still
  placed there.
\<close>

theorem flexible_placed_with_gap_below_ten:
  "wellFormedInput ''09:00'' [mail, standup, call] \<and>
   map placement (generateSchedule codeUnitKey ''09:00'' [mail, standup, call]) =
     [(''Mail'', 540, 557), (''Call'', 562, 565), (''Standup'', 570, 585)] \<and>
   \<not> flexBeforeAnchor (\<lambda>b a. 10 \<le> start a - start b \<and> start b + duration b + 5 \<le> start a)
       (generateSchedule codeUnitKey ''09:00'' [mail, standup, call])"
  by code_simp

text \<open>
  C4 (re-pack and generate). The walk of \<^verbatim>\<open>handleScheduleDrop\<close> has no test of the gap
  before its inner loop. With an anchor at 09:08 and a 3-minute flexible task from 09:00,
  \<open>generateSchedule\<close> leaves the 8 minutes before the anchor empty and places the task
  at 09:23; dragging that block onto the anchor's row re-packs the same blocks with the
  task at 09:00.
\<close>

theorem repack_differs_from_generate:
  "generateSchedule codeUnitKey ''09:00'' [sync, call] = [syncItem 548 558, callItem 563 566] \<and>
   handleScheduleDrop 0
     (idleSession\<lparr>schedule := Some [syncItem 548 558, callItem 563 566],
                   draggedScheduleItem := Some 1\<rparr>) =
     Inr (idleSession\<lparr>schedule := Some [callItem 540 543, syncItem 548 558]\<rparr>) \<and>
   mergeWalk 540 [sync] [call] = [syncItem 548 558, callItem 563 566] \<and>
   repackWalk 540 [syncItem 548 558] [callItem 563 566] = [callItem 540 543, syncItem 548 558]"
  by code_simp

text \<open>
  C5 (buffers). In the schedule of well-formed input, a flexible block followed by a
  flexible block is followed after exactly 5 minutes, and a flexible block followed by an
  anchor ends at least 5 minutes before the anchor starts: the anchor stands at its fixed
  time, whatever slack is left before it.
\<close>

theorem buffers_after_flexible:
  assumes "wellFormedInput st ts" and "timeOrderedAnchors ckey ts"
  shows "successively
           (\<lambda>a b. \<not> isFixed a \<longrightarrow>
                    (if isFixed b then endAt a + 5 \<le> start b else start b = endAt a + 5))
           (generateSchedule ckey st ts)"
proof -
  from assms have pos: "positiveDurations ts" by (simp add: wellFormedInput_def)
  have "successively (\<lambda>x y. True) (fixedTasksOf ckey ts)"
    by (rule successively_True)
  from mergeWalk_link [where G = "\<lambda>s d s'. True", OF pos_fixedTasksOf [OF pos] pos_flexibleTasksOf [OF pos] this]
  have "successively (link (\<lambda>s d s'. True))
          (mergeWalk (timeOfDay st) (fixedTasksOf ckey ts) (flexibleTasksOf ckey ts))" .
  then have "successively
           (\<lambda>a b. \<not> isFixed a \<longrightarrow>
                    (if isFixed b then endAt a + 5 \<le> start b else start b = endAt a + 5))
           (mergeWalk (timeOfDay st) (fixedTasksOf ckey ts) (flexibleTasksOf ckey ts))"
    by (rule successively_mono) (simp add: link_def)
  with generateSchedule_is_walk [OF pos assms(2)] show ?thesis by simp
qed

theorem buffers_after_flexible_witness:
  "wellFormedInput ''09:00'' dayTasks \<and>
   timeOrderedAnchors codeUnitKey dayTasks \<and>
   successively
     (\<lambda>a b. \<not> isFixed a \<longrightarrow>
              (if isFixed b then endAt a + 5 \<le> start b else start b = endAt a + 5))
     (generateSchedule codeUnitKey ''09:00'' dayTasks)"
proof -
  have w: "wellFormedInput ''09:00'' dayTasks"
    by code_simp
  have t: "timeOrderedAnchors codeUnitKey dayTasks"
    by code_simp
  from buffers_after_flexible [OF w t] w t show ?thesis
    by blast
qed

text \<open>
  Exactly 5 minutes before an anchor is not what the code gives: a 17-minute task from
  09:00 ends 13 minutes before the anchor at 09:30.
\<close>

theorem flexible_to_fixed_gap_not_five:
  "wellFormedInput ''09:00'' [standup, mail] \<and>
   map placement (generateSchedule codeUnitKey ''09:00'' [standup, mail]) =
     [(''Mail'', 540, 557), (''Standup'', 570, 585)] \<and>
   \<not> successively (\<lambda>a b. \<not> isFixed a \<longrightarrow> start b = endAt a + 5)
       (generateSchedule codeUnitKey ''09:00'' [standup, mail])"
  by code_simp

section \<open>The countdown and the session handlers: properties\<close>

lemma updateTimer_inv:
  assumes "endTimeRef st = Some e \<or> (endTimeRef st = None \<and> timeRemaining st = Some 0 \<and> \<not> isRunning st)"
  shows "endTimeRef (updateTimer t st) = Some e \<or>
         (endTimeRef (updateTimer t st) = None \<and> timeRemaining (updateTimer t st) = Some 0 \<and>
          \<not> isRunning (updateTimer t st))"
  using assms by (cases "ceilSeconds (e - t) \<le> 0") (auto simp: updateTimer_def Let_def)

lemma ticks_inv:
  "endTimeRef st = Some e \<or> (endTimeRef st = None \<and> timeRemaining st = Some 0 \<and> \<not> isRunning st) \<Longrightarrow>
   endTimeRef (foldl (\<lambda>a t. updateTimer t a) st ticks) = Some e \<or>
         (endTimeRef (foldl (\<lambda>a t. updateTimer t a) st ticks) = None \<and>
          timeRemaining (foldl (\<lambda>a t. updateTimer t a) st ticks) = Some 0 \<and>
          \<not> isRunning (foldl (\<lambda>a t. updateTimer t a) st ticks))"
proof (induction ticks arbitrary: st)
  case Nil
  then show ?case by simp
next
  case (Cons t ticks)
  show ?case
    unfolding foldl_Cons
    by (rule Cons.IH) (rule updateTimer_inv [OF Cons.prems])
qed

lemma late_tick:
  assumes "endTimeRef st = Some e \<or> (endTimeRef st = None \<and> timeRemaining st = Some 0 \<and> \<not> isRunning st)"
    and "e + 1000 \<le> now"
  shows "timeRemaining (updateTimer now st) = Some 0 \<and> \<not> isRunning (updateTimer now st)"
proof -
  have "ceilSeconds (e - now) \<le> 0"
    using assms(2) by (simp add: ceilSeconds_def) 
  then show ?thesis
    using assms(1) by (auto simp: updateTimer_def Let_def)
qed

text \<open>
  C6 (pause). \<^verbatim>\<open>pauseTask\<close> freezes \<open>timeRemaining\<close> at the value computed from the
  deadline, clears \<open>isRunning\<close> and the interval, and never changes \<open>endTimeRef\<close>:
  a one-minute block started at 0 and paused after one second keeps the deadline 60000,
  and a second \<^verbatim>\<open>pauseTask\<close> thirty seconds later, on the paused session, moves
  \<open>timeRemaining\<close> from 59 to 29.
\<close>

theorem pauseTask_keeps_deadline:
  "(\<forall>now st. endTimeRef (pauseTask now st) = endTimeRef st) \<and>
   endTimeRef (pauseTask 1000 runningSession) = Some 60000 \<and>
   timeRemaining (pauseTask 1000 runningSession) = Some 59 \<and>
   isRunning (pauseTask 1000 runningSession) = False \<and>
   timeRemaining (pauseTask 31000 (pauseTask 1000 runningSession)) = Some 29"
proof (intro conjI allI)
  fix now st
  show "endTimeRef (pauseTask now st) = endTimeRef st"
    by (simp add: pauseTask_def Let_def split: option.splits)
qed (simp_all add: pauseTask_def runningSession_def plannedSession_def idleSession_def
      ceilSeconds_def)

text \<open>
  C7 (countdown). With a deadline set, a tick sets \<open>timeRemaining\<close> to
  \<open>max 0 (ceil ((deadline - now) / 1000))\<close>, computed from the deadline. After
  \<^verbatim>\<open>startTask\<close> of a one-minute block at \<open>now0\<close>, a tick at \<open>now0 + 61000\<close> or later
  leaves \<open>timeRemaining = 0\<close> and \<open>isRunning = False\<close>, whatever ticks came in between.
\<close>

theorem countdown_from_deadline:
  "(endTimeRef st = Some e \<longrightarrow>
      timeRemaining (updateTimer now st) = Some (max 0 (ceilSeconds (e - now)))) \<and>
   (schedule st0 = Some s \<and> index < length s \<and> duration (s ! index) = 1 \<and>
    startTask now0 index st0 = Inr st1 \<and> now0 + 61000 \<le> late \<longrightarrow>
      timeRemaining (updateTimer late (foldl (\<lambda>a t. updateTimer t a) st1 ticks)) = Some 0 \<and>
      \<not> isRunning (updateTimer late (foldl (\<lambda>a t. updateTimer t a) st1 ticks)))"
proof (intro conjI impI)
  assume "endTimeRef st = Some e"
  then show "timeRemaining (updateTimer now st) = Some (max 0 (ceilSeconds (e - now)))"
    by (simp add: updateTimer_def Let_def)
next
  assume a: "schedule st0 = Some s \<and> index < length s \<and> duration (s ! index) = 1 \<and>
    startTask now0 index st0 = Inr st1 \<and> now0 + 61000 \<le> late"
  then have e: "endTimeRef st1 = Some (now0 + 60000)"
    by (auto simp: startTask_def)
  have inv: "endTimeRef (foldl (\<lambda>a t. updateTimer t a) st1 ticks) = Some (now0 + 60000) \<or>
         (endTimeRef (foldl (\<lambda>a t. updateTimer t a) st1 ticks) = None \<and>
          timeRemaining (foldl (\<lambda>a t. updateTimer t a) st1 ticks) = Some 0 \<and>
          \<not> isRunning (foldl (\<lambda>a t. updateTimer t a) st1 ticks))"
    by (rule ticks_inv) (simp add: e)
  from a have "now0 + 60000 + 1000 \<le> late" by simp
  from late_tick [OF inv this]
  show "timeRemaining (updateTimer late (foldl (\<lambda>a t. updateTimer t a) st1 ticks)) = Some 0"
    and "\<not> isRunning (updateTimer late (foldl (\<lambda>a t. updateTimer t a) st1 ticks))"
    by simp_all
qed

theorem countdown_from_deadline_witness:
  "endTimeRef runningSession = Some 60000 \<and>
   timeRemaining (updateTimer 1500 runningSession) = Some 59 \<and>
   startTask 0 0 plannedSession = Inr (runningSession\<lparr>timerRef := False\<rparr>) \<and>
   timeRemaining (updateTimer 61000 (foldl (\<lambda>a t. updateTimer t a) (runningSession\<lparr>timerRef := False\<rparr>) [100, 30000])) = Some 0 \<and>
   \<not> isRunning (updateTimer 61000 (foldl (\<lambda>a t. updateTimer t a) (runningSession\<lparr>timerRef := False\<rparr>) [100, 30000]))"
proof -
  have s: "startTask 0 0 plannedSession = Inr (runningSession\<lparr>timerRef := False\<rparr>)"
    by (simp add: startTask_def plannedSession_def runningSession_def idleSession_def oneMinuteItem_def)
  have e: "endTimeRef runningSession = Some 60000"
    by (simp add: runningSession_def)
  have l: "schedule plannedSession = Some [oneMinuteItem, standupItem] \<and> 0 < length [oneMinuteItem, standupItem] \<and> duration ([oneMinuteItem, standupItem] ! 0) = 1"
    by (simp add: plannedSession_def oneMinuteItem_def)
  have c: "max 0 (ceilSeconds (60000 - 1500)) = 59"
    by (simp add: ceilSeconds_def)
  show ?thesis
    using countdown_from_deadline [of runningSession 60000 1500 plannedSession "[oneMinuteItem, standupItem]" 0 0 "runningSession\<lparr>timerRef := False\<rparr>" 61000 "[100, 30000]"]
      s e l c by simp
qed

text \<open>
  C8 (complete and skip). With an active block \<open>i\<close> of the schedule, \<^verbatim>\<open>completeTask\<close>
  marks block \<open>i\<close> completed and clears the interval; when block \<open>i + 1\<close> exists it
  becomes the current block with its full duration in seconds remaining, a new deadline
  and \<open>isRunning\<close> set; otherwise the index, the remaining time and the deadline are
  cleared and \<open>isRunning\<close> is false. \<^verbatim>\<open>skipTask\<close> does the same and leaves the schedule,
  hence every completed flag, as it is.
\<close>

theorem complete_and_skip_advance:
  assumes "schedule st = Some s" and "currentTaskIndex st = Some i" and "i < length s"
  shows "completeTask now st =
           Inr (if i + 1 < length s
                then st\<lparr>schedule := Some (s[i := (s ! i)\<lparr>completed := True\<rparr>]),
                        timerRef := False,
                        currentTaskIndex := Some (i + 1),
                        endTimeRef := Some (now + duration (s ! (i + 1)) * 60 * 1000),
                        timeRemaining := Some (duration (s ! (i + 1)) * 60),
                        isRunning := True\<rparr>
                else st\<lparr>schedule := Some (s[i := (s ! i)\<lparr>completed := True\<rparr>]),
                        timerRef := False, endTimeRef := None,
                        currentTaskIndex := None, timeRemaining := None,
                        isRunning := False\<rparr>) \<and>
         skipTask now st =
           Inr (if i + 1 < length s
                then st\<lparr>timerRef := False,
                        currentTaskIndex := Some (i + 1),
                        endTimeRef := Some (now + duration (s ! (i + 1)) * 60 * 1000),
                        timeRemaining := Some (duration (s ! (i + 1)) * 60),
                        isRunning := True\<rparr>
                else st\<lparr>timerRef := False, endTimeRef := None,
                        currentTaskIndex := None, timeRemaining := None,
                        isRunning := False\<rparr>)"
proof -
  have lt: "(int i < int (length s) - 1) = (i + 1 < length s)"
    by auto
  show ?thesis
    using assms by (simp add: completeTask_def skipTask_def startTask_def Let_def lt)
qed

theorem complete_and_skip_advance_witness:
  "completeTask 5000 runningSession =
     Inr (runningSession\<lparr>schedule := Some [oneMinuteItem\<lparr>completed := True\<rparr>, standupItem],
            timerRef := False, currentTaskIndex := Some 1, endTimeRef := Some 905000,
            timeRemaining := Some 900\<rparr>) \<and>
   skipTask 5000 runningSession =
     Inr (runningSession\<lparr>timerRef := False, currentTaskIndex := Some 1,
            endTimeRef := Some 905000, timeRemaining := Some 900\<rparr>) \<and>
   completeTask 5000 (runningSession\<lparr>currentTaskIndex := Some 1\<rparr>) =
     Inr (plannedSession\<lparr>schedule := Some [oneMinuteItem, standupItem\<lparr>completed := True\<rparr>],
            timeRemaining := None\<rparr>) \<and>
   skipTask 5000 (runningSession\<lparr>currentTaskIndex := Some 1\<rparr>) =
     Inr (plannedSession\<lparr>timeRemaining := None\<rparr>)"
  using complete_and_skip_advance [of runningSession "[oneMinuteItem, standupItem]" 0 5000]
    complete_and_skip_advance
      [of "runningSession\<lparr>currentTaskIndex := Some 1\<rparr>" "[oneMinuteItem, standupItem]" 1 5000]
  by (simp add: runningSession_def plannedSession_def idleSession_def standupItem_def)

text \<open>
  C9 (rejected reorder). Dropping a fixed block, or dropping a block onto its own
  position, raises no error and changes nothing but \<open>draggedScheduleItem\<close>, which is
  reset: the schedule is the one before.
\<close>

theorem rejected_drop_is_noop:
  assumes "schedule st = Some s" and "draggedScheduleItem st = Some d"
    and "(d < length s \<and> isFixed (s ! d)) \<or> targetIndex = d"
  shows "handleScheduleDrop targetIndex st = Inr (st\<lparr>draggedScheduleItem := None\<rparr>)"
  using assms by (auto simp: handleScheduleDrop_def Let_def)

theorem rejected_drop_is_noop_witness:
  "handleScheduleDrop 0 (plannedSession\<lparr>draggedScheduleItem := Some 1\<rparr>) = Inr plannedSession \<and>
   handleScheduleDrop 0 (plannedSession\<lparr>draggedScheduleItem := Some 0\<rparr>) = Inr plannedSession"
  using rejected_drop_is_noop [of "plannedSession\<lparr>draggedScheduleItem := Some 1\<rparr>" "[oneMinuteItem, standupItem]" 1 0]
    rejected_drop_is_noop [of "plannedSession\<lparr>draggedScheduleItem := Some 0\<rparr>" "[oneMinuteItem, standupItem]" 0 0]
  by (simp add: plannedSession_def idleSession_def standupItem_def)

text \<open>
  C10 (complete and skip with nothing active). With no schedule, or with no current
  block, \<^verbatim>\<open>completeTask\<close> and \<^verbatim>\<open>skipTask\<close> return the state unchanged.
\<close>

theorem complete_skip_noop_when_inactive:
  "schedule st = None \<or> currentTaskIndex st = None \<Longrightarrow>
   completeTask now st = Inr st \<and> skipTask now st = Inr st"
  by (auto simp: completeTask_def skipTask_def split: option.splits)

theorem complete_skip_noop_when_inactive_witness:
  "schedule idleSession = None \<and> completeTask 0 idleSession = Inr idleSession \<and>
   skipTask 0 idleSession = Inr idleSession \<and>
   currentTaskIndex plannedSession = None \<and> completeTask 0 plannedSession = Inr plannedSession \<and>
   skipTask 0 plannedSession = Inr plannedSession"
  using complete_skip_noop_when_inactive [of idleSession 0]
    complete_skip_noop_when_inactive [of plannedSession 0]
  by (simp add: idleSession_def plannedSession_def)

end
